theory Spec2Isabelle
  imports Main "HOL-Library.Sublist"
begin

section \<open>The parts of Go's \<^verbatim>\<open>strings\<close> package the program calls\<close>

text \<open>
  A Go string is a sequence of bytes, here a \<^typ>\<open>string\<close>; a rune is an \<^typ>\<open>int\<close>.
  \<^verbatim>\<open>TrimSpace\<close>, \<^verbatim>\<open>Fields\<close> and \<^verbatim>\<open>ToLower\<close> read the bytes as UTF-8, the way
  \<^verbatim>\<open>utf8.DecodeRuneInString\<close> and \<^verbatim>\<open>utf8.DecodeLastRuneInString\<close> do: a byte that starts
  no valid encoding is the rune \<^verbatim>\<open>RuneError\<close> of width 1.
\<close>

definition RuneError :: int where
  "RuneError = 0xFFFD"

text \<open>
  \<^verbatim>\<open>utf8.DecodeRuneInString\<close>: the first rune of the string and its width in bytes.
  \<open>decodeTail\<close> is the part after the length check, for a first byte \<open>s0\<close> that announces
  \<open>sz\<close> bytes; the second byte must lie in the accept range of \<open>s0\<close>, the others in
  \<^verbatim>\<open>0x80\<close> to \<^verbatim>\<open>0xBF\<close>.
\<close>

definition decodeTail :: "int \<Rightarrow> nat \<Rightarrow> string \<Rightarrow> int \<times> nat" where
  "decodeTail s0 sz rest =
     (let lo = (if s0 = 0xE0 then 0xA0 else if s0 = 0xF0 then 0x90 else (0x80::int));
          hi = (if s0 = 0xED then 0x9F else if s0 = 0xF4 then 0x8F else (0xBF::int));
          s1 = (of_char (rest ! 0) :: int)
      in
      if s1 < lo \<or> hi < s1 then (RuneError, 1)
      else if sz \<le> 2 then ((s0 mod 0x20) * 0x40 + s1 mod 0x40, 2)
      else
        let s2 = (of_char (rest ! 1) :: int) in
        if s2 < 0x80 \<or> 0xBF < s2 then (RuneError, 1)
        else if sz \<le> 3
          then ((s0 mod 0x10) * 0x1000 + (s1 mod 0x40) * 0x40 + s2 mod 0x40, 3)
        else
          let s3 = (of_char (rest ! 2) :: int) in
          if s3 < 0x80 \<or> 0xBF < s3 then (RuneError, 1)
          else ((s0 mod 0x08) * 0x40000 + (s1 mod 0x40) * 0x1000
                  + (s2 mod 0x40) * 0x40 + s3 mod 0x40, 4))"

fun decodeRune :: "string \<Rightarrow> int \<times> nat" where
  "decodeRune [] = (RuneError, 0)"
| "decodeRune (c0 # rest) =
     (let s0 = (of_char c0 :: int) in
      if s0 < 0x80 then (s0, 1)
      else if s0 < 0xC2 \<or> 0xF4 < s0 then (RuneError, 1)
      else
        let sz = (if s0 < 0xE0 then 2 else if s0 < 0xF0 then 3 else (4::nat)) in
        if length (c0 # rest) < sz then (RuneError, 1)
        else decodeTail s0 sz rest)"

lemma decodeTail_size:
  "0 < snd (decodeTail s0 sz rest)"
  "2 \<le> sz \<Longrightarrow> snd (decodeTail s0 sz rest) \<le> sz"
  by (simp_all add: decodeTail_def Let_def)

lemma decodeRune_size_pos: "s \<noteq> [] \<Longrightarrow> 0 < snd (decodeRune s)"
  by (cases s) (simp_all add: Let_def decodeTail_size)

lemma decodeRune_size_le: "snd (decodeRune s) \<le> length s"
proof (cases s)
  case Nil
  then show ?thesis by simp
next
  case (Cons c0 rest)
  let ?s0 = "of_char c0 :: int"
  let ?sz = "if ?s0 < 0xE0 then 2 else if ?s0 < 0xF0 then 3 else (4::nat)"
  have sz: "2 \<le> ?sz" by simp
  show ?thesis
  proof (cases "?s0 < 0x80 \<or> ?s0 < 0xC2 \<or> 0xF4 < ?s0 \<or> length (c0 # rest) < ?sz")
    case True
    then consider "?s0 < 0x80" | "\<not> ?s0 < 0x80" "?s0 < 0xC2 \<or> 0xF4 < ?s0"
      | "\<not> ?s0 < 0x80" "\<not> (?s0 < 0xC2 \<or> 0xF4 < ?s0)" "length (c0 # rest) < ?sz"
      by blast
    then have "snd (decodeRune (c0 # rest)) = 1"
    proof cases
      case 1
      then show ?thesis by (simp add: Let_def)
    next
      case 2
      then show ?thesis by (simp add: Let_def)
    next
      case 3
      then show ?thesis by (simp only: decodeRune.simps Let_def if_False if_True snd_conv)
    qed
    then show ?thesis
      unfolding Cons by simp
  next
    case False
    then have "decodeRune (c0 # rest) = decodeTail ?s0 ?sz rest"
      by (simp add: Let_def)
    moreover have "snd (decodeTail ?s0 ?sz rest) \<le> ?sz"
      by (rule decodeTail_size(2) [OF sz])
    moreover from False have "?sz \<le> length (c0 # rest)"
      by simp
    ultimately show ?thesis
      unfolding Cons by simp
  qed
qed

text \<open>A \<^verbatim>\<open>range\<close> loop over a string: its runes in order, each with its bytes.\<close>

function decodeAll :: "string \<Rightarrow> (int \<times> string) list" where
  "decodeAll s =
     (if s = [] then []
      else (fst (decodeRune s), take (snd (decodeRune s)) s)
             # decodeAll (drop (snd (decodeRune s)) s))"
  by pat_completeness auto
termination
proof (relation "measure length")
  show "wf (measure length)" by simp
next
  fix s :: string
  assume "s \<noteq> []"
  then have "0 < snd (decodeRune s)" and "0 < length s"
    by (simp_all add: decodeRune_size_pos)
  then show "(drop (snd (decodeRune s)) s, s) \<in> measure length"
    by simp
qed

declare decodeAll.simps [simp del]

text \<open>\<^verbatim>\<open>unicode.IsSpace\<close>: the Unicode White_Space property.\<close>

definition isSpaceRune :: "int \<Rightarrow> bool" where
  "isSpaceRune r \<longleftrightarrow>
     r \<in> set [0x09, 0x0A, 0x0B, 0x0C, 0x0D, 0x20, 0x85, 0xA0, 0x1680, 0x2028, 0x2029, 0x202F,
              0x205F, 0x3000]
     \<or> (0x2000 \<le> r \<and> r \<le> 0x200A)"

text \<open>\<^verbatim>\<open>utf8.DecodeLastRuneInString\<close>: the last rune of the string and its width.\<close>

definition RuneStart :: "char \<Rightarrow> bool" where
  "RuneStart b \<longleftrightarrow> \<not> (0x80 \<le> (of_char b :: int) \<and> (of_char b :: int) < 0xC0)"

definition decodeLastRune :: "string \<Rightarrow> int \<times> nat" where
  "decodeLastRune s =
     (let end = length s in
      if end = 0 then (RuneError, 0)
      else if (of_char (s ! (end - 1)) :: int) < 0x80 then (of_char (s ! (end - 1)), 1)
      else
        let lim = end - 4;
            start = (case find (\<lambda>i. RuneStart (s ! i)) (rev [lim ..< end - 1]) of
                       Some i \<Rightarrow> i
                     | None \<Rightarrow> if lim = 0 then 0 else lim - 1);
            d = decodeRune (drop start s)
        in if start + snd d \<noteq> end then (RuneError, 1) else d)"

lemma decodeLastRune_size_pos: "s \<noteq> [] \<Longrightarrow> 0 < snd (decodeLastRune s)"
proof -
  assume ne: "s \<noteq> []"
  let ?lim = "length s - 4"
  let ?start = "case find (\<lambda>i. RuneStart (s ! i)) (rev [?lim ..< length s - 1]) of
                       Some i \<Rightarrow> i
                     | None \<Rightarrow> if ?lim = 0 then 0 else ?lim - 1"
  have st: "?start < length s"
  proof (cases "find (\<lambda>i. RuneStart (s ! i)) (rev [?lim ..< length s - 1])")
    case None
    with ne show ?thesis by (auto split: if_splits)
  next
    case (Some i)
    then have "i \<in> set (rev [?lim ..< length s - 1])"
      by (metis find_Some_iff nth_mem)
    then have "i < length s"
      by (simp only: set_rev set_upt atLeastLessThan_iff) linarith
    with Some show ?thesis by simp
  qed
  have "0 < snd (decodeRune (drop ?start s))"
    using st by (intro decodeRune_size_pos) simp
  with ne show ?thesis
    by (simp add: decodeLastRune_def Let_def)
qed

lemma decodeLastRune_size_le: "snd (decodeLastRune s) \<le> length s"
proof (cases "s = []")
  case True
  then show ?thesis by (simp add: decodeLastRune_def)
next
  case False
  then have len: "1 \<le> length s"
    by (simp add: Suc_leI)
  let ?lim = "length s - 4"
  let ?start = "case find (\<lambda>i. RuneStart (s ! i)) (rev [?lim ..< length s - 1]) of
                       Some i \<Rightarrow> i
                     | None \<Rightarrow> if ?lim = 0 then 0 else ?lim - 1"
  let ?d = "decodeRune (drop ?start s)"
  show ?thesis
  proof (cases "(of_char (s ! (length s - 1)) :: int) < 0x80")
    case True
    with False len show ?thesis
      by (simp add: decodeLastRune_def Let_def)
  next
    case hi: False
    show ?thesis
    proof (cases "?start + snd ?d \<noteq> length s")
      case True
      with False hi len show ?thesis
        by (simp add: decodeLastRune_def Let_def)
    next
      case eq: False
      then have "snd ?d \<le> length s"
        by linarith
      moreover from False hi eq have "decodeLastRune s = ?d"
        by (simp add: decodeLastRune_def Let_def)
      ultimately show ?thesis
        by simp
    qed
  qed
qed

text \<open>
  \<^verbatim>\<open>TrimLeftFunc\<close> and \<^verbatim>\<open>TrimRightFunc\<close> with \<^verbatim>\<open>unicode.IsSpace\<close>. \<open>lastNonSpace\<close> is
  \<^verbatim>\<open>lastIndexFunc\<close>: the offset of the last rune, read from the end, that is not a space
  (\<open>None\<close> for Go's -1).
\<close>

function TrimLeftSpace :: "string \<Rightarrow> string" where
  "TrimLeftSpace s =
     (if s = [] then []
      else if isSpaceRune (fst (decodeRune s)) then TrimLeftSpace (drop (snd (decodeRune s)) s)
      else s)"
  by pat_completeness auto
termination
proof (relation "measure length")
  show "wf (measure length)" by simp
next
  fix s :: string
  assume "s \<noteq> []"
  then have "0 < snd (decodeRune s)" and "0 < length s"
    by (simp_all add: decodeRune_size_pos)
  then show "(drop (snd (decodeRune s)) s, s) \<in> measure length"
    by simp
qed

declare TrimLeftSpace.simps [simp del]

function lastNonSpace :: "string \<Rightarrow> nat option" where
  "lastNonSpace s =
     (if s = [] then None
      else if \<not> isSpaceRune (fst (decodeLastRune s))
        then Some (length s - snd (decodeLastRune s))
      else lastNonSpace (take (length s - snd (decodeLastRune s)) s))"
  by pat_completeness auto
termination
proof (relation "measure length")
  show "wf (measure length)" by simp
next
  fix s :: string
  assume "s \<noteq> []"
  then have "0 < snd (decodeLastRune s)" and "0 < length s"
    by (simp_all add: decodeLastRune_size_pos)
  then show "(take (length s - snd (decodeLastRune s)) s, s) \<in> measure length"
    by simp
qed

declare lastNonSpace.simps [simp del]

definition TrimRightSpace :: "string \<Rightarrow> string" where
  "TrimRightSpace s =
     (case lastNonSpace s of
        None \<Rightarrow> take 0 s
      | Some i \<Rightarrow>
          if (of_char (s ! i) :: int) \<ge> 0x80 then take (i + snd (decodeRune (drop i s))) s
          else take (i + 1) s)"

text \<open>
  \<^verbatim>\<open>strings.TrimSpace\<close>: leading and trailing Unicode white space removed. The library
  scans ASCII bytes first and falls back to \<^verbatim>\<open>TrimFunc\<close>, which this is, at the first
  byte that is not ASCII; both give the same result.
\<close>

definition TrimSpace :: "string \<Rightarrow> string" where
  "TrimSpace s = TrimRightSpace (TrimLeftSpace s)"

text \<open>\<^verbatim>\<open>utf8.AppendRune\<close>: the UTF-8 bytes of a rune that is not negative.\<close>

definition encodeRune :: "int \<Rightarrow> string" where
  "encodeRune r =
     (if r < 0x80 then [char_of r]
      else if r < 0x800 then [char_of (0xC0 + r div 0x40), char_of (0x80 + r mod 0x40)]
      else if (0xD800 \<le> r \<and> r \<le> 0xDFFF) \<or> 0x10FFFF < r then [CHR 0xEF, CHR 0xBF, CHR 0xBD]
      else if r < 0x10000
        then [char_of (0xE0 + r div 0x1000), char_of (0x80 + (r div 0x40) mod 0x40),
              char_of (0x80 + r mod 0x40)]
      else [char_of (0xF0 + r div 0x40000), char_of (0x80 + (r div 0x1000) mod 0x40),
            char_of (0x80 + (r div 0x40) mod 0x40), char_of (0x80 + r mod 0x40)])"

text \<open>
  \<^verbatim>\<open>unicode.ToLower\<close>: ASCII is folded by arithmetic; above ASCII the result is read from
  the table \<^verbatim>\<open>unicode.CaseRanges\<close>, the parameter \<open>caseTable\<close>.
\<close>

definition toLowerRune :: "(int \<Rightarrow> int) \<Rightarrow> int \<Rightarrow> int" where
  "toLowerRune caseTable r =
     (if r \<le> 0x7F then (if 0x41 \<le> r \<and> r \<le> 0x5A then r + 0x20 else r)
      else caseTable r)"

text \<open>
  \<^verbatim>\<open>strings.ToLower\<close>, that is \<^verbatim>\<open>strings.Map\<close> with \<^verbatim>\<open>unicode.ToLower\<close>: every rune is
  replaced by the encoding of its image, and dropped when the image is negative. (The
  library returns the string itself when no rune changes and none is invalid, which is
  the same bytes.)
\<close>

definition ToLower :: "(int \<Rightarrow> int) \<Rightarrow> string \<Rightarrow> string" where
  "ToLower caseTable s =
     concat (map (\<lambda>c. let r = toLowerRune caseTable (fst c) in
                        if r \<ge> 0 then encodeRune r else [])
               (decodeAll s))"

definition HasPrefix :: "string \<Rightarrow> string \<Rightarrow> bool" where
  "HasPrefix s pre \<longleftrightarrow> take (length pre) s = pre"

text \<open>\<^verbatim>\<open>strings.Index\<close>: the offset of the first occurrence of \<open>sep\<close>, \<open>None\<close> for Go's -1.\<close>

fun Index :: "string \<Rightarrow> string \<Rightarrow> nat option" where
  "Index [] sep = (if sep = [] then Some 0 else None)"
| "Index (c # cs) sep =
     (if HasPrefix (c # cs) sep then Some 0 else map_option Suc (Index cs sep))"

definition Contains :: "string \<Rightarrow> string \<Rightarrow> bool" where
  "Contains s substr \<longleftrightarrow> Index s substr \<noteq> None"

lemma Index_bound: "Index s sep = Some m \<Longrightarrow> m + length sep \<le> length s"
proof (induction s arbitrary: m)
  case Nil
  then show ?case by (simp split: if_splits)
next
  case (Cons c cs)
  show ?case
  proof (cases "HasPrefix (c # cs) sep")
    case True
    then have "length (take (length sep) (c # cs)) = length sep"
      unfolding HasPrefix_def by simp
    then have "length sep \<le> length (c # cs)"
      by simp
    with True Cons.prems show ?thesis by simp
  next
    case False
    with Cons.prems obtain m' where "Index cs sep = Some m'" "m = Suc m'"
      by auto
    with Cons.IH show ?thesis by fastforce
  qed
qed

text \<open>
  \<^verbatim>\<open>strings.Split(s, sep)\<close> (\<^verbatim>\<open>genSplit\<close> with no limit): an empty separator explodes
  the string; otherwise the string is cut at each occurrence of \<open>sep\<close>, found left to
  right after the previous cut, and the rest is the last piece.
\<close>

function Split :: "string \<Rightarrow> string \<Rightarrow> string list" where
  "Split s sep =
     (if sep = [] then map (\<lambda>c. [c]) s
      else case Index s sep of
             None \<Rightarrow> [s]
           | Some m \<Rightarrow> take m s # Split (drop (m + length sep) s) sep)"
  by pat_completeness auto
termination
proof (relation "measure (\<lambda>(s, sep). length s)")
  show "wf (measure (\<lambda>(s, sep). length s))" by simp
next
  fix s sep :: string and m :: nat
  assume sep: "sep \<noteq> []" and ix: "Index s sep = Some m"
  have a: "m + length sep \<le> length s"
    by (rule Index_bound [OF ix])
  have b: "0 < length sep"
    using sep by simp
  have "length s - (m + length sep) < length s"
    using a b by linarith
  then show "((drop (m + length sep) s, sep), (s, sep)) \<in> measure (\<lambda>(s, sep). length s)"
    by simp
qed

declare Split.simps [simp del]

text \<open>
  \<^verbatim>\<open>strings.Fields\<close>: the maximal runs of runes that are not Unicode white space, in
  order; never an empty string among them. \<open>fieldsOf\<close> works on the decoded runes.
\<close>

function fieldsOf :: "(int \<times> string) list \<Rightarrow> string list" where
  "fieldsOf cs =
     (case dropWhile (\<lambda>c. isSpaceRune (fst c)) cs of
        [] \<Rightarrow> []
      | c # r \<Rightarrow> concat (map snd (takeWhile (\<lambda>c. \<not> isSpaceRune (fst c)) (c # r)))
                 # fieldsOf (dropWhile (\<lambda>c. \<not> isSpaceRune (fst c)) (c # r)))"
  by pat_completeness auto
termination
proof (relation "measure length")
  show "wf (measure length)" by simp
next
  fix cs :: "(int \<times> string) list" and c r
  assume a: "dropWhile (\<lambda>c. isSpaceRune (fst c)) cs = c # r"
  have "\<not> isSpaceRune (fst c)"
    using a by (metis (mono_tags, lifting) hd_dropWhile list.distinct(1) list.sel(1))
  then have "length (dropWhile (\<lambda>c. \<not> isSpaceRune (fst c)) (c # r)) \<le> length r"
    by (simp add: length_dropWhile_le)
  moreover have "length (c # r) \<le> length cs"
    using a by (metis length_dropWhile_le)
  ultimately show "(dropWhile (\<lambda>c. \<not> isSpaceRune (fst c)) (c # r), cs) \<in> measure length"
    by simp
qed

declare fieldsOf.simps [simp del]

definition Fields :: "string \<Rightarrow> string list" where
  "Fields s = fieldsOf (decodeAll s)"

section \<open>Build-tool selection\<close>

datatype language = langPNPM | langNPM | langYarn | langGo | langRust

datatype lang_error = UnsupportedLang string

text \<open>
  The file system is read through \<^verbatim>\<open>os.Stat\<close>, the parameter \<open>stat\<close> (true when the
  call succeeds); \<^verbatim>\<open>filepath.Join\<close> is the parameter \<open>pjoin\<close>.
\<close>

definition fileExists :: "(string \<Rightarrow> bool) \<Rightarrow> string \<Rightarrow> bool" where
  "fileExists stat path = (if path = [] then False else if stat path then True else False)"

definition orderedIndicators :: "(language \<times> string) list" where
  "orderedIndicators =
     [(langPNPM, ''pnpm-lock.yaml''),
      (langYarn, ''yarn.lock''),
      (langNPM, ''package-lock.json''),
      (langGo, ''go.mod''),
      (langRust, ''Cargo.toml'')]"

text \<open>The loop over the indicators: \<open>Some\<close> is the \<^verbatim>\<open>return\<close> inside the loop body.\<close>

fun probeIndicators ::
  "(string \<Rightarrow> string \<Rightarrow> string) \<Rightarrow> (string \<Rightarrow> bool) \<Rightarrow> string \<Rightarrow> (language \<times> string) list
     \<Rightarrow> language option" where
  "probeIndicators pjoin stat workdir [] = None"
| "probeIndicators pjoin stat workdir (ind # inds) =
     (if fileExists stat (pjoin workdir (snd ind)) then Some (fst ind)
      else probeIndicators pjoin stat workdir inds)"

definition detectLanguage ::
  "(string \<Rightarrow> string \<Rightarrow> string) \<Rightarrow> (string \<Rightarrow> bool) \<Rightarrow> string \<Rightarrow> lang_error + language" where
  "detectLanguage pjoin stat workdir =
     (case probeIndicators pjoin stat workdir orderedIndicators of
        Some l \<Rightarrow> Inr l
      | None \<Rightarrow>
          if fileExists stat (pjoin workdir ''package.json'') then Inr langPNPM
          else Inr langPNPM)"

definition determineLanguage ::
  "(int \<Rightarrow> int) \<Rightarrow> (string \<Rightarrow> string \<Rightarrow> string) \<Rightarrow> (string \<Rightarrow> bool) \<Rightarrow> string
     \<Rightarrow> string \<Rightarrow> lang_error + language" where
  "determineLanguage caseTable pjoin stat workdir requested0 =
     (let requested = TrimSpace (ToLower caseTable requested0) in
      if requested = [] then detectLanguage pjoin stat workdir
      else if requested \<in> set [''npm'', ''node'', ''ts'', ''typescript'', ''javascript'', ''nodejs'']
        then Inr langNPM
      else if requested = ''pnpm'' then Inr langPNPM
      else if requested = ''yarn'' then Inr langYarn
      else if requested \<in> set [''go'', ''golang''] then Inr langGo
      else if requested \<in> set [''rust'', ''cargo''] then Inr langRust
      else Inl (UnsupportedLang requested))"


text \<open>
  The \<^verbatim>\<open>switch\<close> of \<^verbatim>\<open>determineLanguage\<close> read as a table from accepted spellings
  to build tools, used to state what the function computes.
\<close>

definition aliasTable :: "(string \<times> language) list" where
  "aliasTable =
     [(''npm'', langNPM), (''node'', langNPM), (''ts'', langNPM), (''typescript'', langNPM),
      (''javascript'', langNPM), (''nodejs'', langNPM),
      (''pnpm'', langPNPM),
      (''yarn'', langYarn),
      (''go'', langGo), (''golang'', langGo),
      (''rust'', langRust), (''cargo'', langRust)]"

definition resolveByTable :: "(int \<Rightarrow> int) \<Rightarrow> string \<Rightarrow> lang_error + language" where
  "resolveByTable caseTable requested0 =
     (case map_of aliasTable (TrimSpace (ToLower caseTable requested0)) of
        Some l \<Rightarrow> Inr l
      | None \<Rightarrow> Inl (UnsupportedLang (TrimSpace (ToLower caseTable requested0))))"

section \<open>Configuration\<close>

type_synonym error = string

record flags =
  f_image :: string
  f_svc :: string
  f_beta :: bool
  f_keepImgs :: int
  f_keepRevs :: int
  f_project :: string
  f_region :: string
  f_registryHost :: string

text \<open>
  The retention counts of a \<open>config\<close> are natural numbers: \<^verbatim>\<open>parseConfig\<close> is the only
  place that builds one and it rejects every count below 1. The start time, read for
  progress lines only, is left out.
\<close>

record config =
  image_name :: string
  beta :: bool
  services :: "string list"
  workdir :: string
  keepImgs :: nat
  keepRevs :: nat
  project :: string
  region :: string
  registryHost :: string

text \<open>The loop of \<^verbatim>\<open>splitServices\<close>: \<open>result\<close> grows by \<^verbatim>\<open>append\<close>.\<close>

definition splitServices :: "string \<Rightarrow> string list" where
  "splitServices raw =
     foldl (\<lambda>result part.
              let trimmed = TrimSpace part in
              if trimmed \<noteq> [] then result @ [trimmed] else result)
       [] (Split raw '';'')"

definition inferRegistryHost :: "(int \<Rightarrow> int) \<Rightarrow> string \<Rightarrow> string" where
  "inferRegistryHost caseTable region0 =
     (let region = ToLower caseTable (TrimSpace region0) in
      if HasPrefix region ''asia'' then ''asia.gcr.io''
      else if HasPrefix region ''europe'' \<or> HasPrefix region ''eu'' then ''eu.gcr.io''
      else if HasPrefix region ''us'' then ''us.gcr.io''
      else ''gcr.io'')"

text \<open>
  \<^verbatim>\<open>parseConfig\<close> after \<^verbatim>\<open>flag.Parse\<close>: the parsed flags are the argument \<open>fl\<close>, the
  result of \<^verbatim>\<open>os.Getwd\<close> is the argument \<open>getwd\<close>; \<open>caseTable\<close> is the case table of
  \<^verbatim>\<open>unicode.ToLower\<close>.
\<close>

definition parseConfig :: "(int \<Rightarrow> int) \<Rightarrow> flags \<Rightarrow> error + string \<Rightarrow> error + config" where
  "parseConfig caseTable fl getwd =
     (if f_image fl = [] then Inl ''--image is required''
      else if f_svc fl = [] then Inl ''--svc is required''
      else let svcs = splitServices (f_svc fl) in
        if length svcs = 0 then Inl ''no services provided via --svc''
        else if f_keepImgs fl < 1 then Inl ''--keep-images must be >= 1''
        else if f_keepRevs fl < 1 then Inl ''--keep-revisions must be >= 1''
        else if f_project fl = [] then Inl ''--project is required''
        else if f_region fl = [] then Inl ''--region is required''
        else case getwd of
          Inl e \<Rightarrow> Inl (''determine working directory: '' @ e)
        | Inr wd \<Rightarrow>
            let host0 = TrimSpace (f_registryHost fl);
                host = (if host0 = [] then inferRegistryHost caseTable (f_region fl) else host0)
            in Inr \<lparr> image_name = f_image fl, beta = f_beta fl, services = svcs, workdir = wd,
                     keepImgs = nat (f_keepImgs fl), keepRevs = nat (f_keepRevs fl),
                     project = f_project fl, region = f_region fl, registryHost = host \<rparr>)"

section \<open>External commands\<close>

text \<open>
  Every effect of the program is an external command started through
  \<^verbatim>\<open>runCommandStreaming\<close> or \<^verbatim>\<open>runCommandCapture\<close>. A command is the way it is run,
  its working directory, its name and its arguments; its outcome is the captured output
  (empty for a streamed command) and the error of \<^verbatim>\<open>cmd.Run\<close>, \<open>None\<close> for \<^verbatim>\<open>nil\<close>.
  Every command is taken to exit; the program has no timeout, so one that never exits
  would leave it waiting. Progress lines (\<^verbatim>\<open>logStep\<close>) are not modelled.
\<close>

datatype run_mode = Streaming | Capture

datatype command =
  Command (cmd_mode: run_mode) (cmd_dir: string) (cmd_name: string) (cmd_args: "string list")

record outcome =
  out :: string
  exit_err :: "error option"

text \<open>
  A computation that runs external commands: it either returns, or runs one command and
  goes on with its outcome.
\<close>

datatype 'a proc = Return 'a | Exec command "outcome \<Rightarrow> 'a proc"

primrec bind :: "'a proc \<Rightarrow> ('a \<Rightarrow> 'b proc) \<Rightarrow> 'b proc" where
  "bind (Return a) f = f a"
| "bind (Exec c k) f = Exec c (\<lambda>r. bind (k r) f)"

definition runCommandStreaming :: "string \<Rightarrow> string \<Rightarrow> string list \<Rightarrow> error option proc" where
  "runCommandStreaming dir name args =
     Exec (Command Streaming dir name args) (\<lambda>r. Return (exit_err r))"

definition runCommandCapture ::
  "string \<Rightarrow> string \<Rightarrow> string list \<Rightarrow> (string \<times> error option) proc" where
  "runCommandCapture dir name args =
     Exec (Command Capture dir name args) (\<lambda>r. Return (out r, exit_err r))"

text \<open>
  The world outside answers each command; its answer may depend on everything that ran
  before. The history lists the commands run so far with their outcomes, oldest first.
\<close>

type_synonym event = "command \<times> outcome"

type_synonym world = "event list \<Rightarrow> command \<Rightarrow> outcome"

primrec exec :: "world \<Rightarrow> 'a proc \<Rightarrow> event list \<Rightarrow> 'a \<times> event list" where
  "exec w (Return a) = (\<lambda>h. (a, h))"
| "exec w (Exec c k) = (\<lambda>h. exec w (k (w h c)) (h @ [(c, w h c)]))"

section \<open>Digest extraction\<close>

text \<open>The loop of \<^verbatim>\<open>parseDigest\<close> over the lines; a recursive call is \<^verbatim>\<open>continue\<close>.\<close>

fun parseDigestLines :: "string list \<Rightarrow> error + string" where
  "parseDigestLines [] = Inl ''digest not found in output''"
| "parseDigestLines (line0 # rest) =
     (let line = TrimSpace line0 in
      if Contains line ''digest:'' then
        (let parts = Split line ''digest:'' in
         if length parts < 2 then parseDigestLines rest
         else
           let afterDigest = TrimSpace (parts ! 1);
               fields = Fields afterDigest
           in if length fields = 0 then parseDigestLines rest
              else Inr (fields ! 0))
      else parseDigestLines rest)"

definition parseDigest :: "string \<Rightarrow> error + string" where
  "parseDigest output = parseDigestLines (Split output [CHR 0x0A])"

section \<open>Per-service deploy\<close>

text \<open>The second half of \<^verbatim>\<open>listRevisions\<close>: the non-blank lines of the listing, trimmed.\<close>

definition revisionLines :: "string \<Rightarrow> string list" where
  "revisionLines output =
     foldl (\<lambda>revisions line.
              let trimmed = TrimSpace line in
              if trimmed \<noteq> [] then revisions @ [trimmed] else revisions)
       [] (Split (TrimSpace output) [CHR 0x0A])"

definition listRevisions :: "config \<Rightarrow> string \<Rightarrow> (error + string list) proc" where
  "listRevisions cfg service =
     bind (runCommandCapture (workdir cfg) ''gcloud''
             [''run'', ''revisions'', ''list'',
              ''--region='' @ region cfg,
              ''--service='' @ service,
              ''--format=value(metadata.name)''])
       (\<lambda>(output, err).
          case err of
            Some e \<Rightarrow> Return (Inl e)
          | None \<Rightarrow> Return (Inr (revisionLines output)))"

text \<open>The deletion loop of \<^verbatim>\<open>deployService\<close> over \<^verbatim>\<open>revisions[cfg.keepRevs:]\<close>.\<close>

fun deleteRevisions :: "config \<Rightarrow> string list \<Rightarrow> error option proc" where
  "deleteRevisions cfg [] = Return None"
| "deleteRevisions cfg (revision # rest) =
     bind (runCommandStreaming (workdir cfg) ''gcloud''
             [''run'', ''revisions'', ''delete'', revision,
              ''--region='' @ region cfg,
              ''-q''])
       (\<lambda>err. case err of
                 Some e \<Rightarrow> Return (Some (''delete revision '' @ revision @ '': '' @ e))
               | None \<Rightarrow> deleteRevisions cfg rest)"

definition deployService :: "config \<Rightarrow> string \<Rightarrow> string \<Rightarrow> error option proc" where
  "deployService cfg service img =
     bind (listRevisions cfg service)
       (\<lambda>listed. case listed of
          Inl e \<Rightarrow> Return (Some (''list revisions for '' @ service @ '': '' @ e))
        | Inr revisions \<Rightarrow>
            bind (runCommandStreaming (workdir cfg) ''gcloud''
                    [''run'', ''deploy'', service,
                     ''--image='' @ img,
                     ''--platform=managed'',
                     ''--region='' @ region cfg,
                     ''--project='' @ project cfg])
              (\<lambda>err. case err of
                 Some e \<Rightarrow> Return (Some (''deploy service '' @ service @ '': '' @ e))
               | None \<Rightarrow>
                   bind (runCommandStreaming (workdir cfg) ''gcloud''
                           [''run'', ''services'', ''update-traffic'', service,
                            ''--to-latest'',
                            ''--region='' @ region cfg])
                     (\<lambda>err. case err of
                        Some e \<Rightarrow> Return (Some (''update traffic for '' @ service @ '': '' @ e))
                      | None \<Rightarrow>
                          if length revisions \<le> keepRevs cfg then Return None
                          else deleteRevisions cfg (drop (keepRevs cfg) revisions))))"

section \<open>Fan-out and join\<close>

text \<open>
  \<^verbatim>\<open>deployServices\<close> starts one goroutine per service and waits for all of them. A
  goroutine is \<open>Some p\<close> while it still has \<open>p\<close> to run and \<open>None\<close> once it is done.
  One step of goroutine \<open>i\<close> either runs its next command, or, when its \<^verbatim>\<open>deployService\<close>
  has returned, sends the error (if any) to the channel \<open>errs\<close> and marks itself done
  (\<^verbatim>\<open>wg.Done\<close>). Each external command is one atomic step.
\<close>

type_synonym fanout = "error option proc option list \<times> error list \<times> event list"

definition step :: "world \<Rightarrow> nat \<Rightarrow> fanout \<Rightarrow> fanout" where
  "step w i st =
     (case st of (tasks, errs, h) \<Rightarrow>
        if i < length tasks then
          (case tasks ! i of
             None \<Rightarrow> st
           | Some (Return r) \<Rightarrow>
               (tasks[i := None], errs @ (case r of None \<Rightarrow> [] | Some e \<Rightarrow> [e]), h)
           | Some (Exec c k) \<Rightarrow>
               (tasks[i := Some (k (w h c))], errs, h @ [(c, w h c)]))
        else st)"

text \<open>Goroutine \<open>i\<close> runs alone until it is done.\<close>

definition finish :: "world \<Rightarrow> nat \<Rightarrow> fanout \<Rightarrow> fanout" where
  "finish w i st =
     (case st of (tasks, errs, h) \<Rightarrow>
        if i < length tasks then
          (case tasks ! i of
             None \<Rightarrow> st
           | Some p \<Rightarrow>
               (case exec w p h of (r, h') \<Rightarrow>
                  (tasks[i := None], errs @ (case r of None \<Rightarrow> [] | Some e \<Rightarrow> [e]), h')))
        else st)"

text \<open>
  The Go scheduler is the parameter \<open>sched\<close>: the goroutine to step next, one entry per
  step (an entry that names no running goroutine does nothing). \<^verbatim>\<open>wg.Wait\<close> returns
  only when every goroutine is done, so whatever still runs when \<open>sched\<close> is used up is
  run to its end, in index order. Every interleaving of the goroutines is the run of some
  \<open>sched\<close>.
\<close>

definition joinAll :: "world \<Rightarrow> nat list \<Rightarrow> fanout \<Rightarrow> fanout" where
  "joinAll w sched st =
     foldl (\<lambda>st i. finish w i st) (foldl (\<lambda>st i. step w i st) st sched)
       [0 ..< length (fst st)]"

text \<open>The loop that drains the closed channel into \<open>buf\<close>.\<close>

definition drainErrs :: "error list \<Rightarrow> string" where
  "drainErrs errs =
     foldl (\<lambda>buf err. (if length buf > 0 then buf @ [CHR 0x0A] else buf) @ err) [] errs"

definition deployServices ::
  "config \<Rightarrow> string \<Rightarrow> world \<Rightarrow> nat list \<Rightarrow> event list \<Rightarrow> error option \<times> event list" where
  "deployServices cfg img w sched h =
     (case joinAll w sched
             (map (\<lambda>service. Some (deployService cfg service img)) (services cfg), [], h) of
        (tasks, errs, h') \<Rightarrow>
          let buf = drainErrs errs in
          if length buf > 0 then (Some buf, h') else (None, h'))"

section \<open>Image cleanup\<close>

text \<open>
  \<^verbatim>\<open>json.Unmarshal\<close> into the slice of tag records is the parameter \<open>unmarshal\<close>: the
  \<^verbatim>\<open>digest\<close> field of each record in order, or the decoding error.
\<close>

fun deleteImages :: "config \<Rightarrow> string \<Rightarrow> string list \<Rightarrow> error option proc" where
  "deleteImages cfg repo [] = Return None"
| "deleteImages cfg repo (digest # rest) =
     (if digest = [] then deleteImages cfg repo rest
      else
        let imageWithDigest = repo @ ''@'' @ digest in
        bind (runCommandStreaming (workdir cfg) ''gcloud''
                [''container'', ''images'', ''delete'',
                 imageWithDigest,
                 ''--force-delete-tags'',
                 ''-q''])
          (\<lambda>err. case err of
                    Some e \<Rightarrow> Return (Some (''delete image '' @ imageWithDigest @ '': '' @ e))
                  | None \<Rightarrow> deleteImages cfg repo rest))"

definition cleanupOldImages ::
  "(string \<Rightarrow> error + string list) \<Rightarrow> config \<Rightarrow> string \<Rightarrow> error option proc" where
  "cleanupOldImages unmarshal cfg img =
     (let repo = registryHost cfg @ ''/'' @ project cfg @ ''/'' @ img in
      bind (runCommandCapture (workdir cfg) ''gcloud''
              [''container'', ''images'', ''list-tags'', repo,
               ''--format=json''])
        (\<lambda>(output, err).
           case err of
             Some e \<Rightarrow> Return (Some (''list image tags: '' @ e @ [CHR 0x0A] @ output))
           | None \<Rightarrow>
               (case unmarshal output of
                  Inl e \<Rightarrow> Return (Some (''parse image tags json: '' @ e))
                | Inr tags \<Rightarrow>
                    if length tags \<le> keepImgs cfg then Return None
                    else deleteImages cfg repo (drop (keepImgs cfg) tags))))"

section \<open>The pipeline\<close>

text \<open>
  \<^verbatim>\<open>run\<close> of \<^verbatim>\<open>main.go\<close>, started after history \<open>h0\<close>: it returns the error (or
  \<open>None\<close> for \<^verbatim>\<open>nil\<close>) and the history at its end. \<open>sched\<close> is the schedule of the
  goroutines of \<^verbatim>\<open>deployServices\<close>.
\<close>

definition run ::
  "(string \<Rightarrow> error + string list) \<Rightarrow> config \<Rightarrow> world \<Rightarrow> nat list \<Rightarrow> event list
     \<Rightarrow> error option \<times> event list" where
  "run unmarshal cfg w sched h0 =
     (case exec w (runCommandStreaming (workdir cfg) ''pnpm'' [''run'', ''build'']) h0 of
        (Some e, h1) \<Rightarrow> (Some (''build project: '' @ e), h1)
      | (None, h1) \<Rightarrow>
          let imageRepo = registryHost cfg @ ''/'' @ project cfg @ ''/'' @ image_name cfg;
              imageTag = (if beta cfg then imageRepo @ '':dev'' else imageRepo)
          in
          (case exec w (runCommandStreaming (workdir cfg) ''docker''
                          [''build'', ''--platform'', ''linux/amd64'', ''-t'', imageTag, ''.'']) h1 of
             (Some e, h2) \<Rightarrow> (Some (''docker build: '' @ e), h2)
           | (None, h2) \<Rightarrow>
               (case exec w (runCommandCapture (workdir cfg) ''docker'' [''push'', imageTag]) h2 of
                  ((pushOutput, Some e), h3) \<Rightarrow>
                    (Some (''docker push: '' @ e @ [CHR 0x0A] @ pushOutput), h3)
                | ((pushOutput, None), h3) \<Rightarrow>
                    (case parseDigest pushOutput of
                       Inl e \<Rightarrow> (Some (''parse digest: '' @ e @ [CHR 0x0A] @ pushOutput), h3)
                     | Inr digest \<Rightarrow>
                         let fullImagePath = imageRepo @ ''@'' @ digest in
                         (case deployServices cfg fullImagePath w sched h3 of
                            (Some e, h4) \<Rightarrow> (Some e, h4)
                          | (None, h4) \<Rightarrow>
                              if \<not> beta cfg
                              then exec w (cleanupOldImages unmarshal cfg (image_name cfg)) h4
                              else (None, h4))))))"

section \<open>Vocabulary for the results\<close>

text \<open>The commands a computation runs when started after history \<open>h\<close>, in order.\<close>

definition eventsRun :: "world \<Rightarrow> 'a proc \<Rightarrow> event list \<Rightarrow> event list" where
  "eventsRun w p h = drop (length h) (snd (exec w p h))"

definition cmdsRun :: "world \<Rightarrow> 'a proc \<Rightarrow> event list \<Rightarrow> command list" where
  "cmdsRun w p h = map fst (eventsRun w p h)"

text \<open>
  A run that stops at its first failing command and reports an error then, and reports
  none when no command fails.
\<close>

fun failFast :: "event list \<Rightarrow> error option \<Rightarrow> bool" where
  "failFast [] r = (r = None)"
| "failFast (e # t) r =
     (if exit_err (snd e) = None then failFast t r else t = [] \<and> r \<noteq> None)"

text \<open>The command lines the program builds, named.\<close>

definition buildCmd :: "config \<Rightarrow> command" where
  "buildCmd cfg = Command Streaming (workdir cfg) ''pnpm'' [''run'', ''build'']"

definition imageRepo :: "config \<Rightarrow> string" where
  "imageRepo cfg = registryHost cfg @ ''/'' @ project cfg @ ''/'' @ image_name cfg"

definition imageTag :: "config \<Rightarrow> string" where
  "imageTag cfg = (if beta cfg then imageRepo cfg @ '':dev'' else imageRepo cfg)"

definition dockerBuildCmd :: "config \<Rightarrow> command" where
  "dockerBuildCmd cfg =
     Command Streaming (workdir cfg) ''docker''
       [''build'', ''--platform'', ''linux/amd64'', ''-t'', imageTag cfg, ''.'']"

definition dockerPushCmd :: "config \<Rightarrow> command" where
  "dockerPushCmd cfg = Command Capture (workdir cfg) ''docker'' [''push'', imageTag cfg]"

definition listRevisionsCmd :: "config \<Rightarrow> string \<Rightarrow> command" where
  "listRevisionsCmd cfg service =
     Command Capture (workdir cfg) ''gcloud''
       [''run'', ''revisions'', ''list'', ''--region='' @ region cfg,
        ''--service='' @ service, ''--format=value(metadata.name)'']"

definition deployCmd :: "config \<Rightarrow> string \<Rightarrow> string \<Rightarrow> command" where
  "deployCmd cfg service img =
     Command Streaming (workdir cfg) ''gcloud''
       [''run'', ''deploy'', service, ''--image='' @ img, ''--platform=managed'',
        ''--region='' @ region cfg, ''--project='' @ project cfg]"

definition updateTrafficCmd :: "config \<Rightarrow> string \<Rightarrow> command" where
  "updateTrafficCmd cfg service =
     Command Streaming (workdir cfg) ''gcloud''
       [''run'', ''services'', ''update-traffic'', service, ''--to-latest'',
        ''--region='' @ region cfg]"

definition deleteRevisionCmd :: "config \<Rightarrow> string \<Rightarrow> command" where
  "deleteRevisionCmd cfg revision =
     Command Streaming (workdir cfg) ''gcloud''
       [''run'', ''revisions'', ''delete'', revision, ''--region='' @ region cfg, ''-q'']"

definition listTagsCmd :: "config \<Rightarrow> string \<Rightarrow> command" where
  "listTagsCmd cfg repo =
     Command Capture (workdir cfg) ''gcloud''
       [''container'', ''images'', ''list-tags'', repo, ''--format=json'']"

definition deleteImageCmd :: "config \<Rightarrow> string \<Rightarrow> string \<Rightarrow> command" where
  "deleteImageCmd cfg repo digest =
     Command Streaming (workdir cfg) ''gcloud''
       [''container'', ''images'', ''delete'', repo @ ''@'' @ digest,
        ''--force-delete-tags'', ''-q'']"

text \<open>The first white-space-delimited token of a text (empty when there is none).\<close>

definition firstToken :: "string \<Rightarrow> string" where
  "firstToken s =
     concat (map snd (takeWhile (\<lambda>c. \<not> isSpaceRune (fst c))
                        (dropWhile (\<lambda>c. isSpaceRune (fst c)) (decodeAll s))))"

text \<open>
  The text of a line between its first \<^verbatim>\<open>digest:\<close> and the next one, or the end of the
  line when there is no next one.
\<close>

definition markerSegment :: "string \<Rightarrow> string" where
  "markerSegment line =
     (case Index line ''digest:'' of
        None \<Rightarrow> []
      | Some m \<Rightarrow>
          (let rest = drop (m + length ''digest:'') line in
           case Index rest ''digest:'' of None \<Rightarrow> rest | Some n \<Rightarrow> take n rest))"

text \<open>
  Digest extraction as the specification words it, to compare with \<^verbatim>\<open>parseDigest\<close>: the
  first line that contains the marker decides, and the digest is the first token of the
  trimmed remainder of that line after the marker.
\<close>

definition afterMarker :: "string \<Rightarrow> string" where
  "afterMarker line =
     (case Index line ''digest:'' of
        None \<Rightarrow> []
      | Some m \<Rightarrow> drop (m + length ''digest:'') line)"

definition specDigest :: "string \<Rightarrow> error + string" where
  "specDigest output =
     (case find (\<lambda>line. Contains line ''digest:'') (Split output [CHR 0x0A]) of
        None \<Rightarrow> Inl ''digest not found in output''
      | Some line \<Rightarrow> Inr (firstToken (TrimSpace (afterMarker line))))"

text \<open>Every command a computation can run, whatever the outcomes, satisfies \<open>P\<close>.\<close>

primrec allCmds :: "(command \<Rightarrow> bool) \<Rightarrow> 'a proc \<Rightarrow> bool" where
  "allCmds P (Return a) = True"
| "allCmds P (Exec c k) = (P c \<and> (\<forall>r. allCmds P (k r)))"

text \<open>
  The invariant of the fan-out: every goroutine still running can only run commands that
  satisfy \<open>P\<close>, and the history has grown from \<open>h0\<close> by such commands only.
\<close>

definition tasksOk :: "(command \<Rightarrow> bool) \<Rightarrow> error option proc option list \<Rightarrow> bool" where
  "tasksOk P tasks \<longleftrightarrow> (\<forall>p. Some p \<in> set tasks \<longrightarrow> allCmds P p)"

definition histOk :: "(command \<Rightarrow> bool) \<Rightarrow> event list \<Rightarrow> event list \<Rightarrow> bool" where
  "histOk P h0 h \<longleftrightarrow> (\<exists>t. h = h0 @ t \<and> (\<forall>e \<in> set t. P (fst e)))"

text \<open>
  The outcomes of the first three commands of \<^verbatim>\<open>run\<close> started after history \<open>h0\<close>, and
  the history once the push has run.
\<close>

definition buildOutcome :: "world \<Rightarrow> config \<Rightarrow> event list \<Rightarrow> outcome" where
  "buildOutcome w cfg h0 = w h0 (buildCmd cfg)"

definition dockerBuildOutcome :: "world \<Rightarrow> config \<Rightarrow> event list \<Rightarrow> outcome" where
  "dockerBuildOutcome w cfg h0 =
     w (h0 @ [(buildCmd cfg, buildOutcome w cfg h0)]) (dockerBuildCmd cfg)"

definition pushOutcome :: "world \<Rightarrow> config \<Rightarrow> event list \<Rightarrow> outcome" where
  "pushOutcome w cfg h0 =
     w (h0 @ [(buildCmd cfg, buildOutcome w cfg h0),
              (dockerBuildCmd cfg, dockerBuildOutcome w cfg h0)]) (dockerPushCmd cfg)"

definition afterPush :: "world \<Rightarrow> config \<Rightarrow> event list \<Rightarrow> event list" where
  "afterPush w cfg h0 =
     h0 @ [(buildCmd cfg, buildOutcome w cfg h0),
           (dockerBuildCmd cfg, dockerBuildOutcome w cfg h0),
           (dockerPushCmd cfg, pushOutcome w cfg h0)]"

text \<open>The commands \<^verbatim>\<open>run\<close> runs when started after history \<open>h0\<close>, in order.\<close>

definition runCmds ::
  "(string \<Rightarrow> error + string list) \<Rightarrow> config \<Rightarrow> world \<Rightarrow> nat list \<Rightarrow> event list
     \<Rightarrow> command list" where
  "runCmds unmarshal cfg w sched h0 =
     map fst (drop (length h0) (snd (run unmarshal cfg w sched h0)))"

text \<open>The \<^verbatim>\<open>gcloud run deploy\<close> commands and the \<^verbatim>\<open>gcloud container images\<close> commands.\<close>

definition isDeployCmd :: "command \<Rightarrow> bool" where
  "isDeployCmd c \<longleftrightarrow> cmd_name c = ''gcloud'' \<and> take 2 (cmd_args c) = [''run'', ''deploy'']"

definition isImagesCmd :: "command \<Rightarrow> bool" where
  "isImagesCmd c \<longleftrightarrow> cmd_name c = ''gcloud'' \<and> take 2 (cmd_args c) = [''container'', ''images'']"

text \<open>The pieces of a list joined with a separator between them (\<^verbatim>\<open>strings.Join\<close>).\<close>

fun joinWith :: "string \<Rightarrow> string list \<Rightarrow> string" where
  "joinWith sep [] = []"
| "joinWith sep [p] = p"
| "joinWith sep (p # q # ps) = p @ sep @ joinWith sep (q # ps)"

text \<open>Every value a computation can return, whatever the outcomes, satisfies \<open>Q\<close>.\<close>

primrec allRets :: "('a \<Rightarrow> bool) \<Rightarrow> 'a proc \<Rightarrow> bool" where
  "allRets Q (Return a) = Q a"
| "allRets Q (Exec c k) = (\<forall>r. allRets Q (k r))"

text \<open>No goroutine still running can return an error with an empty message.\<close>

definition retsOk :: "error option proc option list \<Rightarrow> bool" where
  "retsOk tasks \<longleftrightarrow>
     (\<forall>p. Some p \<in> set tasks \<longrightarrow> allRets (\<lambda>r. r \<noteq> Some []) p)"

text \<open>The errors in the channel when \<^verbatim>\<open>wg.Wait\<close> returns, in the order they were sent.\<close>

definition collectedErrs :: "config \<Rightarrow> string \<Rightarrow> world \<Rightarrow> nat list \<Rightarrow> event list \<Rightarrow> error list" where
  "collectedErrs cfg img w sched h =
     fst (snd (joinAll w sched
       (map (\<lambda>service. Some (deployService cfg service img)) (services cfg), [], h)))"

section \<open>Example data\<close>

text \<open>A configuration and a family of worlds used to evaluate the program on inputs.\<close>

definition exCfg :: config where
  "exCfg = \<lparr> image_name = ''web'', beta = False, services = [''api''], workdir = ''/w'',
             keepImgs = 1, keepRevs = 1, project = ''p'', region = ''r'',
             registryHost = ''gcr.io'' \<rparr>"

text \<open>
  In \<open>exWorld fails\<close> the commands that satisfy \<open>fails\<close> exit with status 1 and all
  others succeed; a revision listing prints three revisions, the push prints a digest
  line, a tag listing prints the text \<^verbatim>\<open>d1,,d2,d3\<close>, read by \<open>exUnmarshal\<close> as four
  tag records, the second with an empty digest.
\<close>

definition exWorld :: "(command \<Rightarrow> bool) \<Rightarrow> world" where
  "exWorld fails h c =
     \<lparr> out =
         (if take 3 (cmd_args c) = [''run'', ''revisions'', ''list'']
            then ''rev3'' @ [CHR 0x0A] @ ''rev2'' @ [CHR 0x0A] @ ''rev1'' @ [CHR 0x0A]
          else if take 1 (cmd_args c) = [''push'']
            then ''latest: digest: sha256:abc123 size: 528'' @ [CHR 0x0A]
          else if take 3 (cmd_args c) = [''container'', ''images'', ''list-tags'']
            then ''d1,,d2,d3''
          else []),
       exit_err = (if fails c then Some ''exit status 1'' else None) \<rparr>"

text \<open>A fragment of the case table: U+0130 folds to \<^verbatim>\<open>i\<close>, every other rune to itself.\<close>

definition exLowerTable :: "int \<Rightarrow> int" where
  "exLowerTable r = (if r = 0x130 then 0x69 else r)"

definition exUnmarshal :: "string \<Rightarrow> error + string list" where
  "exUnmarshal s = Inr (Split s '','')"

section \<open>Running commands: basic facts\<close>

lemma exec_bind:
  "exec w (bind m f) h = (case exec w m h of (a, h') \<Rightarrow> exec w (f a) h')"
  by (induction m arbitrary: h) simp_all

lemma exec_extends: "\<exists>t. snd (exec w p h) = h @ t"
proof (induction p arbitrary: h)
  case (Return a)
  show ?case by simp
next
  case (Exec c k)
  have "\<exists>t. snd (exec w (k (w h c)) (h @ [(c, w h c)])) = (h @ [(c, w h c)]) @ t"
    by (rule Exec.IH) (rule rangeI)
  then show ?case by auto
qed

lemma eventsRun_Return [simp]: "eventsRun w (Return a) h = []"
  by (simp add: eventsRun_def)

lemma eventsRun_Exec [simp]:
  "eventsRun w (Exec c k) h = (c, w h c) # eventsRun w (k (w h c)) (h @ [(c, w h c)])"
proof -
  obtain t where t: "snd (exec w (k (w h c)) (h @ [(c, w h c)])) = (h @ [(c, w h c)]) @ t"
    using exec_extends by blast
  show ?thesis by (simp add: eventsRun_def t)
qed

lemma cmdsRun_Return [simp]: "cmdsRun w (Return a) h = []"
  by (simp add: cmdsRun_def)

lemma cmdsRun_Exec [simp]:
  "cmdsRun w (Exec c k) h = c # cmdsRun w (k (w h c)) (h @ [(c, w h c)])"
  by (simp add: cmdsRun_def)

lemma exec_eventsRun: "snd (exec w p h) = h @ eventsRun w p h"
proof -
  obtain t where t: "snd (exec w p h) = h @ t"
    using exec_extends by blast
  show ?thesis by (simp add: eventsRun_def t)
qed

lemma exec_runCommandStreaming:
  "exec w (runCommandStreaming d n a) h =
     (exit_err (w h (Command Streaming d n a)),
      h @ [(Command Streaming d n a, w h (Command Streaming d n a))])"
  by (simp add: runCommandStreaming_def)

lemma exec_runCommandCapture:
  "exec w (runCommandCapture d n a) h =
     ((out (w h (Command Capture d n a)), exit_err (w h (Command Capture d n a))),
      h @ [(Command Capture d n a, w h (Command Capture d n a))])"
  by (simp add: runCommandCapture_def)

lemma bind_runCommandStreaming:
  "bind (runCommandStreaming d n a) f = Exec (Command Streaming d n a) (\<lambda>r. f (exit_err r))"
  by (simp add: runCommandStreaming_def)

lemma bind_runCommandCapture:
  "bind (runCommandCapture d n a) f = Exec (Command Capture d n a) (\<lambda>r. f (out r, exit_err r))"
  by (simp add: runCommandCapture_def)

lemma deleteRevisions_Cons:
  "deleteRevisions cfg (revision # rest) =
     Exec (deleteRevisionCmd cfg revision)
       (\<lambda>r. case exit_err r of
               Some e \<Rightarrow> Return (Some (''delete revision '' @ revision @ '': '' @ e))
             | None \<Rightarrow> deleteRevisions cfg rest)"
  by (simp only: deleteRevisions.simps bind_runCommandStreaming deleteRevisionCmd_def)

lemma deleteRevisions_prefix:
  "prefix (cmdsRun w (deleteRevisions cfg revs) h) (map (deleteRevisionCmd cfg) revs)"
proof (induction revs arbitrary: h)
  case Nil
  show ?case by simp
next
  case (Cons revision rest)
  show ?case
    unfolding deleteRevisions_Cons
    by (cases "exit_err (w h (deleteRevisionCmd cfg revision))") (simp_all add: Cons.IH)
qed

lemma deleteRevisions_success:
  "fst (exec w (deleteRevisions cfg revs) h) = None
     \<Longrightarrow> cmdsRun w (deleteRevisions cfg revs) h = map (deleteRevisionCmd cfg) revs"
proof (induction revs arbitrary: h)
  case Nil
  show ?case by simp
next
  case (Cons revision rest)
  show ?case
  proof (cases "exit_err (w h (deleteRevisionCmd cfg revision))")
    case None
    with Cons.prems have "fst (exec w (deleteRevisions cfg rest)
        (h @ [(deleteRevisionCmd cfg revision, w h (deleteRevisionCmd cfg revision))])) = None"
      unfolding deleteRevisions_Cons by simp
    from Cons.IH [OF this] None show ?thesis
      unfolding deleteRevisions_Cons by simp
  next
    case (Some e)
    with Cons.prems show ?thesis
      unfolding deleteRevisions_Cons by simp
  qed
qed

lemma deployService_unfold:
  "deployService cfg service img =
     Exec (listRevisionsCmd cfg service)
       (\<lambda>r1. case exit_err r1 of
          Some e \<Rightarrow> Return (Some (''list revisions for '' @ service @ '': '' @ e))
        | None \<Rightarrow>
            Exec (deployCmd cfg service img)
              (\<lambda>r2. case exit_err r2 of
                 Some e \<Rightarrow> Return (Some (''deploy service '' @ service @ '': '' @ e))
               | None \<Rightarrow>
                   Exec (updateTrafficCmd cfg service)
                     (\<lambda>r3. case exit_err r3 of
                        Some e \<Rightarrow> Return (Some (''update traffic for '' @ service @ '': '' @ e))
                      | None \<Rightarrow> deleteRevisions cfg (drop (keepRevs cfg) (revisionLines (out r1))))))"
proof -
  have p: "(if length revisions \<le> keepRevs cfg then Return None
            else deleteRevisions cfg (drop (keepRevs cfg) revisions))
           = deleteRevisions cfg (drop (keepRevs cfg) revisions)" for revisions
    by simp
  show ?thesis
    unfolding deployService_def listRevisions_def p
    by (simp add: bind_runCommandStreaming bind_runCommandCapture listRevisionsCmd_def
        deployCmd_def updateTrafficCmd_def fun_eq_iff split: option.splits
        cong: option.case_cong)
qed


lemma deleteRevisions_failFast:
  "failFast (eventsRun w (deleteRevisions cfg revs) h) (fst (exec w (deleteRevisions cfg revs) h))"
proof (induction revs arbitrary: h)
  case Nil
  show ?case by simp
next
  case (Cons revision rest)
  show ?case
    unfolding deleteRevisions_Cons
    by (cases "exit_err (w h (deleteRevisionCmd cfg revision))") (simp_all add: Cons.IH)
qed

lemma deployService_prefix:
  "prefix (cmdsRun w (deployService cfg svc img) h)
     ([listRevisionsCmd cfg svc, deployCmd cfg svc img, updateTrafficCmd cfg svc]
      @ map (deleteRevisionCmd cfg)
          (drop (keepRevs cfg) (revisionLines (out (w h (listRevisionsCmd cfg svc))))))"
  unfolding deployService_unfold
  by (simp add: deleteRevisions_prefix split: option.splits)

lemma deployService_success:
  assumes "fst (exec w (deployService cfg svc img) h) = None"
  shows "cmdsRun w (deployService cfg svc img) h =
     [listRevisionsCmd cfg svc, deployCmd cfg svc img, updateTrafficCmd cfg svc]
      @ map (deleteRevisionCmd cfg)
          (drop (keepRevs cfg) (revisionLines (out (w h (listRevisionsCmd cfg svc)))))"
  using assms unfolding deployService_unfold
  by (simp add: deleteRevisions_success split: option.splits)

lemma deployService_failFast:
  "failFast (eventsRun w (deployService cfg svc img) h) (fst (exec w (deployService cfg svc img) h))"
  unfolding deployService_unfold
  by (simp add: deleteRevisions_failFast split: option.splits)


section \<open>Build-tool selection: results\<close>

lemma probeIndicators_find:
  "probeIndicators pjoin stat wd inds =
     map_option fst (find (\<lambda>ind. fileExists stat (pjoin wd (snd ind))) inds)"
  by (induction inds) simp_all

lemma detectLanguage_find:
  "detectLanguage pjoin stat wd =
     Inr (case find (\<lambda>ind. fileExists stat (pjoin wd (snd ind))) orderedIndicators of
            Some ind \<Rightarrow> fst ind
          | None \<Rightarrow> langPNPM)"
  unfolding detectLanguage_def probeIndicators_find
  by (cases "find (\<lambda>ind. fileExists stat (pjoin wd (snd ind))) orderedIndicators") simp_all

text \<open>
  C8. Auto-detection never fails and follows a fixed priority: it returns the tool of the
  first indicator, in the order pnpm-lock.yaml, yarn.lock, package-lock.json, go.mod,
  Cargo.toml, whose file exists, and pnpm when none exists, whether package.json is there
  or not. An empty explicit choice is resolved by detection. With pnpm-lock.yaml present
  (and package.json too) the result is pnpm.
\<close>

theorem detectLanguage_total_priority:
  "detectLanguage pjoin stat wd =
     Inr (case find (\<lambda>ind. fileExists stat (pjoin wd (snd ind))) orderedIndicators of
            Some ind \<Rightarrow> fst ind
          | None \<Rightarrow> langPNPM)
   \<and> (\<forall>e. detectLanguage pjoin stat wd \<noteq> Inl e)
   \<and> determineLanguage tbl pjoin stat wd [] = detectLanguage pjoin stat wd
   \<and> orderedIndicators =
       [(langPNPM, ''pnpm-lock.yaml''), (langYarn, ''yarn.lock''),
        (langNPM, ''package-lock.json''), (langGo, ''go.mod''), (langRust, ''Cargo.toml'')]
   \<and> ((\<forall>ind \<in> set orderedIndicators. \<not> fileExists stat (pjoin wd (snd ind)))
        \<longrightarrow> detectLanguage pjoin stat wd = Inr langPNPM)
   \<and> (fileExists stat (pjoin wd ''pnpm-lock.yaml'')
        \<and> fileExists stat (pjoin wd ''package.json'')
        \<longrightarrow> detectLanguage pjoin stat wd = Inr langPNPM)"
proof (intro conjI allI impI)
  show "detectLanguage pjoin stat wd =
     Inr (case find (\<lambda>ind. fileExists stat (pjoin wd (snd ind))) orderedIndicators of
            Some ind \<Rightarrow> fst ind
          | None \<Rightarrow> langPNPM)"
    by (rule detectLanguage_find)
  show "detectLanguage pjoin stat wd \<noteq> Inl e" for e
    by (simp add: detectLanguage_find)
  have "TrimSpace (ToLower tbl []) = []"
    by code_simp
  then show "determineLanguage tbl pjoin stat wd [] = detectLanguage pjoin stat wd"
    by (simp add: determineLanguage_def)
  show "orderedIndicators =
       [(langPNPM, ''pnpm-lock.yaml''), (langYarn, ''yarn.lock''),
        (langNPM, ''package-lock.json''), (langGo, ''go.mod''), (langRust, ''Cargo.toml'')]"
    by (simp add: orderedIndicators_def)
  show "detectLanguage pjoin stat wd = Inr langPNPM"
    if "\<forall>ind \<in> set orderedIndicators. \<not> fileExists stat (pjoin wd (snd ind))"
  proof -
    from that
    have "find (\<lambda>ind. fileExists stat (pjoin wd (snd ind))) orderedIndicators = None"
      unfolding find_None_iff by blast
    then show ?thesis by (simp add: detectLanguage_find)
  qed
  show "detectLanguage pjoin stat wd = Inr langPNPM"
    if "fileExists stat (pjoin wd ''pnpm-lock.yaml'')
        \<and> fileExists stat (pjoin wd ''package.json'')"
    using that by (simp add: detectLanguage_find orderedIndicators_def)
qed

theorem detectLanguage_total_priority_witness:
  "fileExists (\<lambda>p. p \<in> {''/w/pnpm-lock.yaml'', ''/w/package.json''})
     ((\<lambda>d f. d @ ''/'' @ f) ''/w'' ''pnpm-lock.yaml'')
   \<and> fileExists (\<lambda>p. p \<in> {''/w/pnpm-lock.yaml'', ''/w/package.json''})
     ((\<lambda>d f. d @ ''/'' @ f) ''/w'' ''package.json'')
   \<and> detectLanguage (\<lambda>d f. d @ ''/'' @ f)
        (\<lambda>p. p \<in> {''/w/pnpm-lock.yaml'', ''/w/package.json''}) ''/w'' = Inr langPNPM
   \<and> detectLanguage (\<lambda>d f. d @ ''/'' @ f) (\<lambda>p. False) ''/w'' = Inr langPNPM"
proof -
  let ?j = "\<lambda>d f. d @ ''/'' @ (f :: string)"
  let ?st = "\<lambda>p. p \<in> {''/w/pnpm-lock.yaml'', ''/w/package.json''}"
  have a: "fileExists ?st (?j ''/w'' ''pnpm-lock.yaml'')"
    by (simp add: fileExists_def)
  have b: "fileExists ?st (?j ''/w'' ''package.json'')"
    by (simp add: fileExists_def)
  have c: "\<forall>ind \<in> set orderedIndicators. \<not> fileExists (\<lambda>p. False) (?j ''/w'' (snd ind))"
    by (simp add: fileExists_def)
  show ?thesis
    using a b c detectLanguage_total_priority [of ?j ?st "''/w''"]
      detectLanguage_total_priority [of ?j "\<lambda>p. False" "''/w''"]
    by blast
qed

lemma determineLanguage_resolveByTable:
  assumes "TrimSpace (ToLower tbl requested) \<noteq> []"
  shows "determineLanguage tbl pjoin stat wd requested = resolveByTable tbl requested"
  using assms
  by (simp add: determineLanguage_def resolveByTable_def aliasTable_def Let_def)

lemma determineLanguage_blank:
  assumes "TrimSpace (ToLower tbl requested) = []"
  shows "determineLanguage tbl pjoin stat wd requested = detectLanguage pjoin stat wd"
  using assms by (simp add: determineLanguage_def)

text \<open>
  C9, as the code has it, for every case table. The explicit choice is lower-cased and
  trimmed of Unicode white space first. When the normalised value is not empty it is looked up in the fixed alias table: node, ts,
  typescript, javascript and nodejs resolve to the npm tool, as npm itself does, and a
  value outside the table fails with the unsupported-value error that carries the
  normalised value. When the normalised value is empty (the choice was empty or only
  white space) the tool is auto-detected instead.
\<close>

theorem determineLanguage_alias_table:
  "(TrimSpace (ToLower tbl requested) \<noteq> [] \<longrightarrow>
      determineLanguage tbl pjoin stat wd requested =
        (case map_of aliasTable (TrimSpace (ToLower tbl requested)) of
           Some l \<Rightarrow> Inr l
         | None \<Rightarrow> Inl (UnsupportedLang (TrimSpace (ToLower tbl requested)))))
   \<and> (TrimSpace (ToLower tbl requested) \<in> set [''node'', ''ts'', ''typescript'', ''javascript'', ''nodejs'']
        \<longrightarrow> determineLanguage tbl pjoin stat wd requested = determineLanguage tbl pjoin stat wd ''npm'')
   \<and> determineLanguage tbl pjoin stat wd ''npm'' = Inr langNPM
   \<and> (TrimSpace (ToLower tbl requested) \<noteq> []
        \<and> TrimSpace (ToLower tbl requested) \<notin> fst ` set aliasTable
        \<longrightarrow> determineLanguage tbl pjoin stat wd requested =
              Inl (UnsupportedLang (TrimSpace (ToLower tbl requested))))
   \<and> (TrimSpace (ToLower tbl requested) = [] \<longrightarrow>
        determineLanguage tbl pjoin stat wd requested = detectLanguage pjoin stat wd)"
proof (intro conjI impI)
  show "determineLanguage tbl pjoin stat wd requested =
        (case map_of aliasTable (TrimSpace (ToLower tbl requested)) of
           Some l \<Rightarrow> Inr l
         | None \<Rightarrow> Inl (UnsupportedLang (TrimSpace (ToLower tbl requested))))"
    if "TrimSpace (ToLower tbl requested) \<noteq> []"
    using determineLanguage_resolveByTable [OF that] by (simp add: resolveByTable_def)
  have npm: "TrimSpace (ToLower tbl ''npm'') = ''npm''"
    by code_simp
  show npm_res: "determineLanguage tbl pjoin stat wd ''npm'' = Inr langNPM"
    by (simp add: determineLanguage_def npm)
  show "determineLanguage tbl pjoin stat wd requested = determineLanguage tbl pjoin stat wd ''npm''"
    if "TrimSpace (ToLower tbl requested) \<in> set [''node'', ''ts'', ''typescript'', ''javascript'', ''nodejs'']"
    using that unfolding npm_res by (auto simp add: determineLanguage_def)
  show "determineLanguage tbl pjoin stat wd requested =
          Inl (UnsupportedLang (TrimSpace (ToLower tbl requested)))"
    if "TrimSpace (ToLower tbl requested) \<noteq> []
        \<and> TrimSpace (ToLower tbl requested) \<notin> fst ` set aliasTable"
    using that by (simp add: determineLanguage_def aliasTable_def)
  show "determineLanguage tbl pjoin stat wd requested = detectLanguage pjoin stat wd"
    if "TrimSpace (ToLower tbl requested) = []"
    by (rule determineLanguage_blank [OF that])
qed

theorem determineLanguage_alias_table_witness:
  "TrimSpace (ToLower exLowerTable ''  NoDe '') = ''node''
   \<and> determineLanguage exLowerTable (\<lambda>d f. d @ ''/'' @ f) (\<lambda>p. False) ''/w'' ''  NoDe '' = Inr langNPM
   \<and> TrimSpace (ToLower exLowerTable (''TypeScr'' @ [CHR 0xC4, CHR 0xB0] @ ''pt'')) = ''typescript''
   \<and> determineLanguage exLowerTable (\<lambda>d f. d @ ''/'' @ f) (\<lambda>p. False) ''/w''
        (''TypeScr'' @ [CHR 0xC4, CHR 0xB0] @ ''pt'') = Inr langNPM
   \<and> TrimSpace (ToLower exLowerTable ''  '') = []
   \<and> determineLanguage exLowerTable (\<lambda>d f. d @ ''/'' @ f) (\<lambda>p. False) ''/w'' ''  '' = Inr langPNPM
   \<and> TrimSpace (ToLower exLowerTable [CHR 0xC2, CHR 0xA0]) = []
   \<and> determineLanguage exLowerTable (\<lambda>d f. d @ ''/'' @ f) (\<lambda>p. False) ''/w''
        [CHR 0xC2, CHR 0xA0] = Inr langPNPM
   \<and> TrimSpace (ToLower exLowerTable ''Ruby'') = ''ruby''
   \<and> determineLanguage exLowerTable (\<lambda>d f. d @ ''/'' @ f) (\<lambda>p. False) ''/w'' ''Ruby''
       = Inl (UnsupportedLang ''ruby'')"
proof -
  let ?j = "\<lambda>d f. d @ ''/'' @ (f :: string)"
  let ?ts = "''TypeScr'' @ [CHR 0xC4, CHR 0xB0] @ ''pt''"
  let ?nb = "[CHR 0xC2, CHR 0xA0]"
  have a: "TrimSpace (ToLower exLowerTable ''  NoDe '') = ''node''"
    by code_simp
  have a': "TrimSpace (ToLower exLowerTable ?ts) = ''typescript''"
    by code_simp
  have b: "TrimSpace (ToLower exLowerTable ''  '') = []"
    by code_simp
  have b': "TrimSpace (ToLower exLowerTable ?nb) = []"
    by code_simp
  have c: "TrimSpace (ToLower exLowerTable ''Ruby'') = ''ruby''"
    by code_simp
  have d: "detectLanguage ?j (\<lambda>p. False) ''/w'' = Inr langPNPM"
    by (simp add: detectLanguage_def orderedIndicators_def fileExists_def)
  have r1: "determineLanguage exLowerTable ?j (\<lambda>p. False) ''/w'' ''  NoDe '' = Inr langNPM"
    using determineLanguage_alias_table [where tbl = exLowerTable and requested = "''  NoDe ''"
        and pjoin = ?j and stat = "\<lambda>p. False" and wd = "''/w''"]
    by (simp add: a aliasTable_def)
  have r2: "determineLanguage exLowerTable ?j (\<lambda>p. False) ''/w'' ?ts = Inr langNPM"
    using determineLanguage_alias_table [where tbl = exLowerTable and requested = ?ts
        and pjoin = ?j and stat = "\<lambda>p. False" and wd = "''/w''"]
    unfolding a' by (simp add: aliasTable_def)
  have r3: "determineLanguage exLowerTable ?j (\<lambda>p. False) ''/w'' ''  '' = Inr langPNPM"
    using determineLanguage_alias_table [where tbl = exLowerTable and requested = "''  ''"
        and pjoin = ?j and stat = "\<lambda>p. False" and wd = "''/w''"] d
    by (simp add: b)
  have r4: "determineLanguage exLowerTable ?j (\<lambda>p. False) ''/w'' ?nb = Inr langPNPM"
    using determineLanguage_alias_table [where tbl = exLowerTable and requested = ?nb
        and pjoin = ?j and stat = "\<lambda>p. False" and wd = "''/w''"] d
    unfolding b' by simp
  have r5: "determineLanguage exLowerTable ?j (\<lambda>p. False) ''/w'' ''Ruby'' = Inl (UnsupportedLang ''ruby'')"
    using determineLanguage_alias_table [where tbl = exLowerTable and requested = "''Ruby''"
        and pjoin = ?j and stat = "\<lambda>p. False" and wd = "''/w''"]
    by (simp add: c aliasTable_def)
  from a r1 a' r2 b r3 b' r4 c r5 show ?thesis
    by blast
qed

text \<open>
  The claim as the specification words it: every non-empty explicit choice goes through
  the table, and fails when outside it. A choice of white space only is not empty, is
  not in the table, and still resolves, by auto-detection.
\<close>

theorem determineLanguage_nonempty_counterexample:
  "\<not> (\<forall>tbl pjoin stat wd requested. requested \<noteq> [] \<longrightarrow>
        determineLanguage tbl pjoin stat wd requested = resolveByTable tbl requested)"
proof
  assume h: "\<forall>tbl pjoin stat wd requested. requested \<noteq> [] \<longrightarrow>
        determineLanguage tbl pjoin stat wd requested = resolveByTable tbl requested"
  have b: "TrimSpace (ToLower exLowerTable ''  '') = []"
    by code_simp
  have "determineLanguage exLowerTable (\<lambda>d f. d @ f) (\<lambda>p. False) ''w'' ''  '' = Inr langPNPM"
    by (simp add: determineLanguage_def b detectLanguage_def orderedIndicators_def
        fileExists_def)
  moreover have "resolveByTable exLowerTable ''  '' = Inl (UnsupportedLang [])"
    by (simp add: resolveByTable_def b aliasTable_def)
  moreover have "determineLanguage exLowerTable (\<lambda>d f. d @ f) (\<lambda>p. False) ''w'' ''  '' = resolveByTable exLowerTable ''  ''"
    using h by blast
  ultimately show False by simp
qed

section \<open>Splitting and joining: basic facts\<close>

lemma Split_nonempty: "sep \<noteq> [] \<Longrightarrow> Split s sep \<noteq> []"
  by (subst Split.simps) (simp split: option.splits)

lemma Index_take:
  "Index s sep = Some i \<Longrightarrow> take (length sep) (drop i s) = sep"
proof (induction s arbitrary: i)
  case Nil
  then show ?case by (simp split: if_splits)
next
  case (Cons c cs)
  show ?case
  proof (cases "HasPrefix (c # cs) sep")
    case True
    with Cons.prems show ?thesis by (simp add: HasPrefix_def)
  next
    case False
    with Cons.prems obtain j where "Index cs sep = Some j" "i = Suc j"
      by auto
    with Cons.IH show ?thesis by simp
  qed
qed

lemma joinWith_Cons: "ps \<noteq> [] \<Longrightarrow> joinWith sep (p # ps) = p @ sep @ joinWith sep ps"
  by (cases ps) simp_all

lemma Split_join:
  assumes "sep \<noteq> []"
  shows "joinWith sep (Split s sep) = s"
  using assms
proof (induction s sep rule: Split.induct)
  case (1 s sep)
  show ?case
  proof (cases "Index s sep")
    case None
    with "1.prems" show ?thesis
      by (subst Split.simps) simp
  next
    case (Some m)
    let ?rest = "drop (m + length sep) s"
    have ih: "joinWith sep (Split ?rest sep) = ?rest"
      by (rule "1.IH" [OF "1.prems" Some "1.prems"])
    have "s = take m s @ take (length sep) (drop m s) @ drop (length sep) (drop m s)"
      by (simp only: append_take_drop_id)
    then have s: "s = take m s @ sep @ ?rest"
      unfolding Index_take [OF Some] by (simp add: add.commute)
    have "joinWith sep (Split s sep) = take m s @ sep @ joinWith sep (Split ?rest sep)"
      using "1.prems" Some Split_nonempty [OF "1.prems", of ?rest]
      by (subst Split.simps) (simp add: joinWith_Cons)
    with ih s show ?thesis
      by simp
  qed
qed

lemma Contains_Nil: "Contains [] sep \<longleftrightarrow> sep = []"
  by (simp add: Contains_def)

lemma Contains_Cons:
  "Contains (c # cs) sep \<longleftrightarrow> HasPrefix (c # cs) sep \<or> Contains cs sep"
  by (simp add: Contains_def)

lemma Index_first:
  assumes "sep \<noteq> []" and "Index s sep = Some m"
  shows "\<not> Contains (take m s) sep"
  using assms(2)
proof (induction s arbitrary: m)
  case Nil
  with assms(1) show ?case by (simp add: Contains_Nil)
next
  case (Cons c cs)
  show ?case
  proof (cases "HasPrefix (c # cs) sep")
    case True
    with Cons.prems assms(1) show ?thesis by (simp add: Contains_Nil)
  next
    case False
    with Cons.prems obtain j where j: "Index cs sep = Some j" "m = Suc j"
      by auto
    have "\<not> HasPrefix (c # take j cs) sep"
    proof
      assume "HasPrefix (c # take j cs) sep"
      then have t: "take (length sep) (take (Suc j) (c # cs)) = sep"
        by (simp add: HasPrefix_def)
      then have "length (take (length sep) (take (Suc j) (c # cs))) = length sep"
        by simp
      then have "length sep \<le> Suc j"
        by simp
      then have "take (length sep) (take (Suc j) (c # cs)) = take (length sep) (c # cs)"
        by (simp only: take_take min.absorb1)
      with t have "HasPrefix (c # cs) sep"
        by (simp add: HasPrefix_def)
      with False show False ..
    qed
    with Cons.IH [OF j(1)] j(2) show ?thesis
      by (simp add: Contains_Cons)
  qed
qed

lemma Split_pieces:
  assumes "sep \<noteq> []"
  shows "\<forall>p \<in> set (Split s sep). \<not> Contains p sep"
  using assms
proof (induction s sep rule: Split.induct)
  case (1 s sep)
  show ?case
  proof (cases "Index s sep")
    case None
    with "1.prems" show ?thesis
      by (subst Split.simps) (simp add: Contains_def)
  next
    case (Some m)
    have "\<forall>p \<in> set (Split (drop (m + length sep) s) sep). \<not> Contains p sep"
      by (rule "1.IH" [OF "1.prems" Some "1.prems"])
    with Index_first [OF "1.prems" Some] "1.prems" Some show ?thesis
      by (subst Split.simps) simp
  qed
qed

lemma drainErrs_foldl:
  assumes "\<forall>e \<in> set errs. e \<noteq> []" and "errs \<noteq> []"
  shows "foldl (\<lambda>buf err. (if length buf > 0 then buf @ [CHR 0x0A] else buf) @ err) acc errs
     = (if acc = [] then joinWith [CHR 0x0A] errs else acc @ [CHR 0x0A] @ joinWith [CHR 0x0A] errs)"
  using assms
proof (induction errs arbitrary: acc)
  case Nil
  then show ?case by simp
next
  case (Cons e errs)
  show ?case
  proof (cases "errs = []")
    case True
    then show ?thesis by simp
  next
    case False
    with Cons.prems have "\<forall>e \<in> set errs. e \<noteq> []" "e \<noteq> []"
      by simp_all
    with Cons.IH [OF this(1) False] False show ?thesis
      by (simp add: joinWith_Cons)
  qed
qed

lemma drainErrs_join:
  assumes "\<forall>e \<in> set errs. e \<noteq> []"
  shows "drainErrs errs = joinWith [CHR 0x0A] errs"
proof (cases "errs = []")
  case True
  then show ?thesis by (simp add: drainErrs_def)
next
  case False
  from drainErrs_foldl [OF assms False, of "[]"] show ?thesis
    by (simp add: drainErrs_def)
qed

lemma drainErrs_empty_iff:
  assumes "\<forall>e \<in> set errs. e \<noteq> []"
  shows "drainErrs errs = [] \<longleftrightarrow> errs = []"
proof (cases errs)
  case Nil
  then show ?thesis by (simp add: drainErrs_def)
next
  case (Cons e es)
  with assms have "e \<noteq> []" by simp
  have "joinWith [CHR 0x0A] (e # es) \<noteq> []"
    using \<open>e \<noteq> []\<close> by (cases es) simp_all
  with drainErrs_join [OF assms] Cons show ?thesis
    by simp
qed


section \<open>Service-list parsing: results\<close>

lemma splitServices_foldl:
  "foldl (\<lambda>result part.
            let trimmed = TrimSpace part in
            if trimmed \<noteq> [] then result @ [trimmed] else result) acc parts
   = acc @ filter (\<lambda>t. t \<noteq> []) (map TrimSpace parts)"
  by (induction parts arbitrary: acc) (simp_all add: Let_def)

lemma splitServices_filter:
  "splitServices raw = filter (\<lambda>t. t \<noteq> []) (map TrimSpace (Split raw '';''))"
  by (simp add: splitServices_def splitServices_foldl)

text \<open>
  C10. The parsed service list is the list of pieces of the raw string between
  semicolons (pieces without a semicolon that give the raw string back when joined with
  semicolons), each trimmed of surrounding Unicode white space, the empty ones dropped, in their
  original order; no member is the empty string; and \<^verbatim>\<open>parseConfig\<close> returns an error
  when the list is empty.
\<close>

theorem splitServices_segments:
  "splitServices raw = filter (\<lambda>t. t \<noteq> []) (map TrimSpace (Split raw '';''))
   \<and> joinWith '';'' (Split raw '';'') = raw
   \<and> (\<forall>p \<in> set (Split raw '';''). \<not> Contains p '';'')
   \<and> [] \<notin> set (splitServices raw)
   \<and> (splitServices (f_svc fl) = [] \<longrightarrow> (\<exists>e. parseConfig tbl fl getwd = Inl e))
   \<and> (splitServices (f_svc fl) = [] \<and> f_image fl \<noteq> [] \<and> f_svc fl \<noteq> []
        \<longrightarrow> parseConfig tbl fl getwd = Inl ''no services provided via --svc'')"
proof (intro conjI impI)
  show "splitServices raw = filter (\<lambda>t. t \<noteq> []) (map TrimSpace (Split raw '';''))"
    by (rule splitServices_filter)
  show "joinWith '';'' (Split raw '';'') = raw"
    by (rule Split_join) simp
  show "\<forall>p \<in> set (Split raw '';''). \<not> Contains p '';''"
    by (rule Split_pieces) simp
  show "[] \<notin> set (splitServices raw)"
    by (simp add: splitServices_filter)
  show "\<exists>e. parseConfig tbl fl getwd = Inl e" if "splitServices (f_svc fl) = []"
    using that by (simp add: parseConfig_def Let_def)
  show "parseConfig tbl fl getwd = Inl ''no services provided via --svc''"
    if "splitServices (f_svc fl) = [] \<and> f_image fl \<noteq> [] \<and> f_svc fl \<noteq> []"
    using that by (simp add: parseConfig_def Let_def)
qed

theorem splitServices_segments_witness:
  "splitServices '' ; '' = []
   \<and> parseConfig exLowerTable \<lparr> f_image = ''web'', f_svc = '' ; '', f_beta = False, f_keepImgs = 10,
        f_keepRevs = 10, f_project = ''p'', f_region = ''us-central1'', f_registryHost = [] \<rparr>
        (Inr ''/w'') = Inl ''no services provided via --svc''
   \<and> splitServices [CHR 0xC2, CHR 0xA0] = []
   \<and> parseConfig exLowerTable \<lparr> f_image = ''web'', f_svc = [CHR 0xC2, CHR 0xA0], f_beta = False,
        f_keepImgs = 10, f_keepRevs = 10, f_project = ''p'', f_region = ''us-central1'',
        f_registryHost = [] \<rparr>
        (Inr ''/w'') = Inl ''no services provided via --svc''
   \<and> splitServices '' a; ;b c ;'' = [''a'', ''b c'']
   \<and> splitServices ([CHR 0xC2, CHR 0xA0] @ ''api;b'' @ [CHR 0xE3, CHR 0x80, CHR 0x80])
       = [''api'', ''b'']"
proof -
  let ?fl = "\<lparr> f_image = ''web'', f_svc = '' ; '', f_beta = False, f_keepImgs = 10,
        f_keepRevs = 10, f_project = ''p'', f_region = ''us-central1'', f_registryHost = [] \<rparr>"
  let ?fn = "\<lparr> f_image = ''web'', f_svc = [CHR 0xC2, CHR 0xA0], f_beta = False,
        f_keepImgs = 10, f_keepRevs = 10, f_project = ''p'', f_region = ''us-central1'',
        f_registryHost = [] \<rparr>"
  have a: "splitServices (f_svc ?fl) = []"
    by code_simp
  have a': "splitServices (f_svc ?fn) = []"
    by code_simp
  have b: "splitServices '' a; ;b c ;'' = [''a'', ''b c'']"
    by code_simp
  have b': "splitServices ([CHR 0xC2, CHR 0xA0] @ ''api;b'' @ [CHR 0xE3, CHR 0x80, CHR 0x80])
       = [''api'', ''b'']"
    by code_simp
  have r1: "parseConfig exLowerTable ?fl (Inr ''/w'') = Inl ''no services provided via --svc''"
    using a splitServices_segments [where raw = "'' ; ''" and fl = ?fl and tbl = exLowerTable
        and getwd = "Inr ''/w''"] by simp
  have r2: "parseConfig exLowerTable ?fn (Inr ''/w'') = Inl ''no services provided via --svc''"
    using a' splitServices_segments [where raw = "'' ; ''" and fl = ?fn and tbl = exLowerTable
        and getwd = "Inr ''/w''"] by simp
  from a r1 a' r2 b b' show ?thesis
    by simp
qed

section \<open>Image cleanup: basic facts\<close>

lemma deleteImages_Cons:
  "deleteImages cfg repo (digest # rest) =
     (if digest = [] then deleteImages cfg repo rest
      else Exec (deleteImageCmd cfg repo digest)
        (\<lambda>r. case exit_err r of
                Some e \<Rightarrow> Return (Some (''delete image '' @ (repo @ ''@'' @ digest) @ '': '' @ e))
              | None \<Rightarrow> deleteImages cfg repo rest))"
  by (simp only: deleteImages.simps bind_runCommandStreaming deleteImageCmd_def Let_def)

lemma deleteImages_prefix:
  "prefix (cmdsRun w (deleteImages cfg repo tags) h)
     (map (deleteImageCmd cfg repo) (filter (\<lambda>d. d \<noteq> []) tags))"
proof (induction tags arbitrary: h)
  case Nil
  show ?case by simp
next
  case (Cons digest rest)
  show ?case
    unfolding deleteImages_Cons
    by (cases "exit_err (w h (deleteImageCmd cfg repo digest))") (simp_all add: Cons.IH)
qed

lemma deleteImages_success:
  "fst (exec w (deleteImages cfg repo tags) h) = None
     \<Longrightarrow> cmdsRun w (deleteImages cfg repo tags) h
         = map (deleteImageCmd cfg repo) (filter (\<lambda>d. d \<noteq> []) tags)"
proof (induction tags arbitrary: h)
  case Nil
  show ?case by simp
next
  case (Cons digest rest)
  show ?case
  proof (cases "digest = []")
    case True
    with Cons show ?thesis
      unfolding deleteImages_Cons by simp
  next
    case False
    show ?thesis
    proof (cases "exit_err (w h (deleteImageCmd cfg repo digest))")
      case None
      with Cons.prems False have "fst (exec w (deleteImages cfg repo rest)
          (h @ [(deleteImageCmd cfg repo digest, w h (deleteImageCmd cfg repo digest))])) = None"
        unfolding deleteImages_Cons by simp
      from Cons.IH [OF this] None False show ?thesis
        unfolding deleteImages_Cons by simp
    next
      case (Some e)
      with Cons.prems False show ?thesis
        unfolding deleteImages_Cons by simp
    qed
  qed
qed

lemma deleteImages_failFast:
  "failFast (eventsRun w (deleteImages cfg repo tags) h)
     (fst (exec w (deleteImages cfg repo tags) h))"
proof (induction tags arbitrary: h)
  case Nil
  show ?case by simp
next
  case (Cons digest rest)
  show ?case
    unfolding deleteImages_Cons
    by (cases "exit_err (w h (deleteImageCmd cfg repo digest))") (simp_all add: Cons.IH)
qed

lemma cleanupOldImages_unfold:
  "cleanupOldImages unmarshal cfg img =
     Exec (listTagsCmd cfg (registryHost cfg @ ''/'' @ project cfg @ ''/'' @ img))
       (\<lambda>r. case exit_err r of
          Some e \<Rightarrow> Return (Some (''list image tags: '' @ e @ [CHR 0x0A] @ out r))
        | None \<Rightarrow>
            (case unmarshal (out r) of
               Inl e \<Rightarrow> Return (Some (''parse image tags json: '' @ e))
             | Inr tags \<Rightarrow>
                 deleteImages cfg (registryHost cfg @ ''/'' @ project cfg @ ''/'' @ img)
                   (drop (keepImgs cfg) tags)))"
proof -
  have p: "(if length tags \<le> keepImgs cfg then Return None
            else deleteImages cfg repo (drop (keepImgs cfg) tags))
           = deleteImages cfg repo (drop (keepImgs cfg) tags)" for tags repo
    by simp
  show ?thesis
    unfolding cleanupOldImages_def p Let_def
    by (simp add: bind_runCommandCapture listTagsCmd_def fun_eq_iff
        split: option.splits sum.splits cong: option.case_cong sum.case_cong)
qed


section \<open>Retention pruning: results\<close>

lemma cleanupOldImages_prefix:
  assumes "exit_err (w h (listTagsCmd cfg repo)) = None"
    and "unmarshal (out (w h (listTagsCmd cfg repo))) = Inr tags"
    and "repo = registryHost cfg @ ''/'' @ project cfg @ ''/'' @ img"
  shows "prefix (cmdsRun w (cleanupOldImages unmarshal cfg img) h)
     (listTagsCmd cfg repo
      # map (deleteImageCmd cfg repo) (filter (\<lambda>d. d \<noteq> []) (drop (keepImgs cfg) tags)))"
  using assms unfolding cleanupOldImages_unfold
  by (simp add: deleteImages_prefix)

lemma cleanupOldImages_success:
  assumes "exit_err (w h (listTagsCmd cfg repo)) = None"
    and "unmarshal (out (w h (listTagsCmd cfg repo))) = Inr tags"
    and "repo = registryHost cfg @ ''/'' @ project cfg @ ''/'' @ img"
    and "fst (exec w (cleanupOldImages unmarshal cfg img) h) = None"
  shows "cmdsRun w (cleanupOldImages unmarshal cfg img) h =
     listTagsCmd cfg repo
      # map (deleteImageCmd cfg repo) (filter (\<lambda>d. d \<noteq> []) (drop (keepImgs cfg) tags))"
  using assms unfolding cleanupOldImages_unfold
  by (simp add: deleteImages_success)

lemma cleanupOldImages_failFast:
  assumes "exit_err (w h (listTagsCmd cfg repo)) = None"
    and "unmarshal (out (w h (listTagsCmd cfg repo))) = Inr tags"
    and "repo = registryHost cfg @ ''/'' @ project cfg @ ''/'' @ img"
  shows "failFast (eventsRun w (cleanupOldImages unmarshal cfg img) h)
     (fst (exec w (cleanupOldImages unmarshal cfg img) h))"
  using assms unfolding cleanupOldImages_unfold
  by (simp add: deleteImages_failFast)

text \<open>
  C2. At both deletion sites the part of the ordered list \<open>L\<close> selected for deletion
  with threshold \<open>k\<close> is \<open>L\<close> without its first \<open>min k (length L)\<close> elements, in the
  order of \<open>L\<close>. For revisions (\<open>L\<close> the listed revisions, \<open>k\<close> the value of
  \<^verbatim>\<open>keepRevs\<close>): a service task that ends without error has run, after listing, deploy
  and traffic update, exactly one deletion for each selected entry, in order, which makes
  \<open>max 0 (length L - k)\<close> deletions, and none when \<open>length L \<le> k\<close>; a task always stops
  at its first failing command, having run a prefix of these commands. For images (\<open>L\<close>
  the tag records, \<open>k\<close> the value of \<^verbatim>\<open>keepImgs\<close>), once the listing has succeeded and
  decoded: the same, the deletions being those of the selected records with a non-empty
  digest, hence \<open>max 0 (length L - k)\<close> of them when no digest is empty.
\<close>

theorem retention_selection:
  "prefix (cmdsRun w (deployService cfg svc img) h)
     ([listRevisionsCmd cfg svc, deployCmd cfg svc img, updateTrafficCmd cfg svc]
      @ map (deleteRevisionCmd cfg)
          (drop (min (keepRevs cfg) (length (revisionLines (out (w h (listRevisionsCmd cfg svc))))))
             (revisionLines (out (w h (listRevisionsCmd cfg svc))))))
   \<and> failFast (eventsRun w (deployService cfg svc img) h)
       (fst (exec w (deployService cfg svc img) h))
   \<and> (fst (exec w (deployService cfg svc img) h) = None \<longrightarrow>
        cmdsRun w (deployService cfg svc img) h =
          [listRevisionsCmd cfg svc, deployCmd cfg svc img, updateTrafficCmd cfg svc]
          @ map (deleteRevisionCmd cfg)
              (drop (min (keepRevs cfg)
                       (length (revisionLines (out (w h (listRevisionsCmd cfg svc))))))
                 (revisionLines (out (w h (listRevisionsCmd cfg svc)))))
        \<and> int (length (cmdsRun w (deployService cfg svc img) h)) =
            3 + max 0 (int (length (revisionLines (out (w h (listRevisionsCmd cfg svc)))))
                       - int (keepRevs cfg))
        \<and> (length (revisionLines (out (w h (listRevisionsCmd cfg svc)))) \<le> keepRevs cfg \<longrightarrow>
             cmdsRun w (deployService cfg svc img) h =
               [listRevisionsCmd cfg svc, deployCmd cfg svc img, updateTrafficCmd cfg svc]))
   \<and> (exit_err (w h (listTagsCmd cfg (imageRepo cfg))) = None
       \<and> unmarshal (out (w h (listTagsCmd cfg (imageRepo cfg)))) = Inr tags
      \<longrightarrow> prefix (cmdsRun w (cleanupOldImages unmarshal cfg (image_name cfg)) h)
            (listTagsCmd cfg (imageRepo cfg)
             # map (deleteImageCmd cfg (imageRepo cfg))
                 (filter (\<lambda>d. d \<noteq> []) (drop (min (keepImgs cfg) (length tags)) tags)))
          \<and> failFast (eventsRun w (cleanupOldImages unmarshal cfg (image_name cfg)) h)
              (fst (exec w (cleanupOldImages unmarshal cfg (image_name cfg)) h))
          \<and> (fst (exec w (cleanupOldImages unmarshal cfg (image_name cfg)) h) = None \<longrightarrow>
               cmdsRun w (cleanupOldImages unmarshal cfg (image_name cfg)) h =
                 listTagsCmd cfg (imageRepo cfg)
                 # map (deleteImageCmd cfg (imageRepo cfg))
                     (filter (\<lambda>d. d \<noteq> []) (drop (min (keepImgs cfg) (length tags)) tags))
               \<and> ([] \<notin> set tags \<longrightarrow>
                    int (length (cmdsRun w (cleanupOldImages unmarshal cfg (image_name cfg)) h)) =
                      1 + max 0 (int (length tags) - int (keepImgs cfg)))
               \<and> (length tags \<le> keepImgs cfg \<longrightarrow>
                    cmdsRun w (cleanupOldImages unmarshal cfg (image_name cfg)) h =
                      [listTagsCmd cfg (imageRepo cfg)])))"
proof -
  let ?L = "revisionLines (out (w h (listRevisionsCmd cfg svc)))"
  let ?ds = "deployService cfg svc img"
  let ?cl = "cleanupOldImages unmarshal cfg (image_name cfg)"
  have dm: "drop (min k (length xs)) xs = drop k xs" for k and xs :: "string list"
    by (simp add: min_def)
  have r1: "prefix (cmdsRun w ?ds h)
     ([listRevisionsCmd cfg svc, deployCmd cfg svc img, updateTrafficCmd cfg svc]
      @ map (deleteRevisionCmd cfg) (drop (min (keepRevs cfg) (length ?L)) ?L))"
    unfolding dm by (rule deployService_prefix)
  have r2: "failFast (eventsRun w ?ds h) (fst (exec w ?ds h))"
    by (rule deployService_failFast)
  have r3: "cmdsRun w ?ds h =
          [listRevisionsCmd cfg svc, deployCmd cfg svc img, updateTrafficCmd cfg svc]
          @ map (deleteRevisionCmd cfg) (drop (min (keepRevs cfg) (length ?L)) ?L)
        \<and> int (length (cmdsRun w ?ds h)) = 3 + max 0 (int (length ?L) - int (keepRevs cfg))
        \<and> (length ?L \<le> keepRevs cfg \<longrightarrow>
             cmdsRun w ?ds h =
               [listRevisionsCmd cfg svc, deployCmd cfg svc img, updateTrafficCmd cfg svc])"
    if ok: "fst (exec w ?ds h) = None"
  proof -
    have eq: "cmdsRun w ?ds h =
          [listRevisionsCmd cfg svc, deployCmd cfg svc img, updateTrafficCmd cfg svc]
          @ map (deleteRevisionCmd cfg) (drop (keepRevs cfg) ?L)"
      by (rule deployService_success [OF ok])
    then have "int (length (cmdsRun w ?ds h)) = 3 + max 0 (int (length ?L) - int (keepRevs cfg))"
      by simp
    with eq show ?thesis
      unfolding dm by simp
  qed
  have r4: "prefix (cmdsRun w ?cl h)
            (listTagsCmd cfg (imageRepo cfg)
             # map (deleteImageCmd cfg (imageRepo cfg))
                 (filter (\<lambda>d. d \<noteq> []) (drop (min (keepImgs cfg) (length tags)) tags)))
          \<and> failFast (eventsRun w ?cl h) (fst (exec w ?cl h))
          \<and> (fst (exec w ?cl h) = None \<longrightarrow>
               cmdsRun w ?cl h =
                 listTagsCmd cfg (imageRepo cfg)
                 # map (deleteImageCmd cfg (imageRepo cfg))
                     (filter (\<lambda>d. d \<noteq> []) (drop (min (keepImgs cfg) (length tags)) tags))
               \<and> ([] \<notin> set tags \<longrightarrow>
                    int (length (cmdsRun w ?cl h)) =
                      1 + max 0 (int (length tags) - int (keepImgs cfg)))
               \<and> (length tags \<le> keepImgs cfg \<longrightarrow>
                    cmdsRun w ?cl h = [listTagsCmd cfg (imageRepo cfg)]))"
    if a: "exit_err (w h (listTagsCmd cfg (imageRepo cfg))) = None
       \<and> unmarshal (out (w h (listTagsCmd cfg (imageRepo cfg)))) = Inr tags"
  proof -
    from a have a1: "exit_err (w h (listTagsCmd cfg (imageRepo cfg))) = None"
      and a2: "unmarshal (out (w h (listTagsCmd cfg (imageRepo cfg)))) = Inr tags"
      by simp_all
    have repo: "imageRepo cfg = registryHost cfg @ ''/'' @ project cfg @ ''/'' @ image_name cfg"
      by (simp add: imageRepo_def)
    have p: "prefix (cmdsRun w ?cl h)
            (listTagsCmd cfg (imageRepo cfg)
             # map (deleteImageCmd cfg (imageRepo cfg))
                 (filter (\<lambda>d. d \<noteq> []) (drop (keepImgs cfg) tags)))"
      by (rule cleanupOldImages_prefix [where w = w and h = h and cfg = cfg
            and unmarshal = unmarshal and img = "image_name cfg", OF a1 a2 repo])
    have f: "failFast (eventsRun w ?cl h) (fst (exec w ?cl h))"
      by (rule cleanupOldImages_failFast [where w = w and h = h and cfg = cfg
            and unmarshal = unmarshal and img = "image_name cfg", OF a1 a2 repo])
    have e: "cmdsRun w ?cl h =
                 listTagsCmd cfg (imageRepo cfg)
                 # map (deleteImageCmd cfg (imageRepo cfg))
                     (filter (\<lambda>d. d \<noteq> []) (drop (keepImgs cfg) tags))
               \<and> ([] \<notin> set tags \<longrightarrow>
                    int (length (cmdsRun w ?cl h)) =
                      1 + max 0 (int (length tags) - int (keepImgs cfg)))
               \<and> (length tags \<le> keepImgs cfg \<longrightarrow>
                    cmdsRun w ?cl h = [listTagsCmd cfg (imageRepo cfg)])"
      if ok: "fst (exec w ?cl h) = None"
    proof -
      have eq: "cmdsRun w ?cl h =
                 listTagsCmd cfg (imageRepo cfg)
                 # map (deleteImageCmd cfg (imageRepo cfg))
                     (filter (\<lambda>d. d \<noteq> []) (drop (keepImgs cfg) tags))"
        by (rule cleanupOldImages_success [where w = w and h = h and cfg = cfg
              and unmarshal = unmarshal and img = "image_name cfg", OF a1 a2 repo ok])
      have "filter (\<lambda>d. d \<noteq> []) (drop (keepImgs cfg) tags) = drop (keepImgs cfg) tags"
        if "[] \<notin> set tags"
      proof -
        have "\<forall>d \<in> set (drop (keepImgs cfg) tags). d \<noteq> []"
          using that by (metis in_set_dropD)
        then show ?thesis
          by (simp add: filter_id_conv)
      qed
      moreover have "int (length tags - keepImgs cfg)
          = max 0 (int (length tags) - int (keepImgs cfg))"
        by arith
      ultimately have "[] \<notin> set tags \<longrightarrow>
          int (length (cmdsRun w ?cl h)) = 1 + max 0 (int (length tags) - int (keepImgs cfg))"
        using eq by simp
      with eq show ?thesis
        by simp
    qed
    from p f e show ?thesis
      unfolding dm by blast
  qed
  from r1 r2 r3 r4 show ?thesis
    by blast
qed

lemma exCfg_fields:
  "keepRevs exCfg = 1" "keepImgs exCfg = 1" "image_name exCfg = ''web''"
  "imageRepo exCfg = ''gcr.io/p/web''"
  by (simp_all add: exCfg_def imageRepo_def)

theorem retention_selection_witness:
  "fst (exec (exWorld (\<lambda>c. False)) (deployService exCfg ''api'' ''img'') []) = None
   \<and> cmdsRun (exWorld (\<lambda>c. False)) (deployService exCfg ''api'' ''img'') [] =
       [listRevisionsCmd exCfg ''api'', deployCmd exCfg ''api'' ''img'',
        updateTrafficCmd exCfg ''api'',
        deleteRevisionCmd exCfg ''rev2'', deleteRevisionCmd exCfg ''rev1'']
   \<and> length (revisionLines (out (exWorld (\<lambda>c. False) []
         (listRevisionsCmd (exCfg\<lparr>keepRevs := 5\<rparr>) ''api'')))) \<le> keepRevs (exCfg\<lparr>keepRevs := 5\<rparr>)
   \<and> fst (exec (exWorld (\<lambda>c. False)) (deployService (exCfg\<lparr>keepRevs := 5\<rparr>) ''api'' ''img'') [])
       = None
   \<and> cmdsRun (exWorld (\<lambda>c. False)) (deployService (exCfg\<lparr>keepRevs := 5\<rparr>) ''api'' ''img'') [] =
       [listRevisionsCmd exCfg ''api'', deployCmd exCfg ''api'' ''img'',
        updateTrafficCmd exCfg ''api'']
   \<and> exit_err (exWorld (\<lambda>c. False) [] (listTagsCmd exCfg (imageRepo exCfg))) = None
   \<and> exUnmarshal (out (exWorld (\<lambda>c. False) [] (listTagsCmd exCfg (imageRepo exCfg))))
       = Inr [''d1'', [], ''d2'', ''d3'']
   \<and> fst (exec (exWorld (\<lambda>c. False)) (cleanupOldImages exUnmarshal exCfg (image_name exCfg)) [])
       = None
   \<and> cmdsRun (exWorld (\<lambda>c. False)) (cleanupOldImages exUnmarshal exCfg (image_name exCfg)) [] =
       [listTagsCmd exCfg (imageRepo exCfg), deleteImageCmd exCfg (imageRepo exCfg) ''d2'',
        deleteImageCmd exCfg (imageRepo exCfg) ''d3'']
   \<and> [] \<notin> set [''d1'', ''d2'', ''d3'']
   \<and> length (cmdsRun (exWorld (\<lambda>c. False))
        (cleanupOldImages (\<lambda>s. Inr [''d1'', ''d2'', ''d3'']) exCfg (image_name exCfg)) []) = 3
   \<and> length [''d1'', ''d2'', ''d3''] \<le> keepImgs (exCfg\<lparr>keepImgs := 3\<rparr>)
   \<and> cmdsRun (exWorld (\<lambda>c. False))
        (cleanupOldImages (\<lambda>s. Inr [''d1'', ''d2'', ''d3'']) (exCfg\<lparr>keepImgs := 3\<rparr>)
           (image_name (exCfg\<lparr>keepImgs := 3\<rparr>))) []
       = [listTagsCmd exCfg (imageRepo exCfg)]"
proof -
  let ?w = "exWorld (\<lambda>c. False)"
  let ?c5 = "exCfg\<lparr>keepRevs := 5\<rparr>"
  let ?c3 = "exCfg\<lparr>keepImgs := 3\<rparr>"
  let ?um = "\<lambda>s :: string. (Inr [''d1'', ''d2'', ''d3''] :: error + string list)"
  have L: "revisionLines (out (?w [] (listRevisionsCmd exCfg ''api''))) = [''rev3'', ''rev2'', ''rev1'']"
    by code_simp
  have L5: "revisionLines (out (?w [] (listRevisionsCmd ?c5 ''api''))) = [''rev3'', ''rev2'', ''rev1'']"
    by code_simp
  have cmd5: "listRevisionsCmd ?c5 ''api'' = listRevisionsCmd exCfg ''api''"
    "deployCmd ?c5 ''api'' ''img'' = deployCmd exCfg ''api'' ''img''"
    "updateTrafficCmd ?c5 ''api'' = updateTrafficCmd exCfg ''api''"
    by (simp_all add: listRevisionsCmd_def deployCmd_def updateTrafficCmd_def)
  have cmd3: "listTagsCmd ?c3 (imageRepo ?c3) = listTagsCmd exCfg (imageRepo exCfg)"
    "image_name ?c3 = image_name exCfg"
    by (simp_all add: listTagsCmd_def imageRepo_def)
  have ok1: "fst (exec ?w (deployService exCfg ''api'' ''img'') []) = None"
    by code_simp
  have ok5: "fst (exec ?w (deployService ?c5 ''api'' ''img'') []) = None"
    by code_simp
  have t1: "exit_err (?w [] (listTagsCmd exCfg (imageRepo exCfg))) = None"
    by code_simp
  have t2: "exUnmarshal (out (?w [] (listTagsCmd exCfg (imageRepo exCfg))))
       = Inr [''d1'', [], ''d2'', ''d3'']"
    by code_simp
  have ok2: "fst (exec ?w (cleanupOldImages exUnmarshal exCfg (image_name exCfg)) []) = None"
    by code_simp
  have ok3: "fst (exec ?w (cleanupOldImages ?um exCfg (image_name exCfg)) []) = None"
    by code_simp
  have t3: "exit_err (?w [] (listTagsCmd ?c3 (imageRepo ?c3))) = None"
    by code_simp
  have ok4: "fst (exec ?w (cleanupOldImages ?um ?c3 (image_name ?c3)) []) = None"
    by code_simp
  have p1: "cmdsRun ?w (deployService exCfg ''api'' ''img'') [] =
       [listRevisionsCmd exCfg ''api'', deployCmd exCfg ''api'' ''img'',
        updateTrafficCmd exCfg ''api'',
        deleteRevisionCmd exCfg ''rev2'', deleteRevisionCmd exCfg ''rev1'']"
    using retention_selection [where w = ?w and cfg = exCfg and svc = "''api''"
        and img = "''img''" and h = "[]"] ok1
    by (simp add: L exCfg_fields)
  have le5: "length (revisionLines (out (?w [] (listRevisionsCmd ?c5 ''api'')))) \<le> keepRevs ?c5"
    by (simp add: L5)
  have p2: "cmdsRun ?w (deployService ?c5 ''api'' ''img'') [] =
       [listRevisionsCmd exCfg ''api'', deployCmd exCfg ''api'' ''img'',
        updateTrafficCmd exCfg ''api'']"
    using retention_selection [where w = ?w and cfg = ?c5 and svc = "''api''"
        and img = "''img''" and h = "[]"] ok5 le5
    unfolding cmd5 by blast
  have p3: "cmdsRun ?w (cleanupOldImages exUnmarshal exCfg (image_name exCfg)) [] =
       [listTagsCmd exCfg (imageRepo exCfg), deleteImageCmd exCfg (imageRepo exCfg) ''d2'',
        deleteImageCmd exCfg (imageRepo exCfg) ''d3'']"
    using retention_selection [where w = ?w and cfg = exCfg and h = "[]"
        and unmarshal = exUnmarshal and tags = "[''d1'', [], ''d2'', ''d3'']"] t1 t2 ok2
    by (simp add: exCfg_fields)
  have ne: "[] \<notin> set [''d1'', ''d2'', ''d3'']"
    by simp
  have p4: "length (cmdsRun ?w (cleanupOldImages ?um exCfg (image_name exCfg)) []) = 3"
    using retention_selection [where w = ?w and cfg = exCfg and h = "[]"
        and unmarshal = ?um and tags = "[''d1'', ''d2'', ''d3'']"] t1 ok3 ne
    by (simp add: exCfg_fields)
  have le3: "length [''d1'', ''d2'', ''d3''] \<le> keepImgs ?c3"
    by simp
  have p5: "cmdsRun ?w (cleanupOldImages ?um ?c3 (image_name ?c3)) []
       = [listTagsCmd exCfg (imageRepo exCfg)]"
    using retention_selection [where w = ?w and cfg = ?c3 and h = "[]"
        and unmarshal = ?um and tags = "[''d1'', ''d2'', ''d3'']"] t3 ok4 le3
    unfolding cmd3 by blast
  from ok1 p1 le5 ok5 p2 t1 t2 ok2 p3 ne p4 le3 p5 show ?thesis
    by blast
qed

lemma exWorld_listing:
  "revisionLines (out (exWorld fails h (listRevisionsCmd exCfg ''api''))) = [''rev3'', ''rev2'', ''rev1'']"
  by (simp add: exWorld_def listRevisionsCmd_def) code_simp

section \<open>Per-service retention: results\<close>

text \<open>
  C4, as the code has it. A service task first lists the revisions, before it runs the
  deploy. It stops at its first failing command, with an error. The commands it runs are
  a prefix of: listing, deploy, traffic update, then one deletion for each entry of the
  listed snapshot after the first \<^verbatim>\<open>keepRevs\<close>, in the snapshot's order. When the task
  ends without error it has run all of them, and the snapshot entries it has not deleted
  are the first \<open>min keepRevs (length snapshot)\<close>.
\<close>

theorem deployService_snapshot_retention:
  "take 1 (cmdsRun w (deployService cfg svc img) h) = [listRevisionsCmd cfg svc]
   \<and> prefix (cmdsRun w (deployService cfg svc img) h)
       ([listRevisionsCmd cfg svc, deployCmd cfg svc img, updateTrafficCmd cfg svc]
        @ map (deleteRevisionCmd cfg)
            (drop (keepRevs cfg) (revisionLines (out (w h (listRevisionsCmd cfg svc))))))
   \<and> failFast (eventsRun w (deployService cfg svc img) h)
       (fst (exec w (deployService cfg svc img) h))
   \<and> (fst (exec w (deployService cfg svc img) h) = None \<longrightarrow>
        cmdsRun w (deployService cfg svc img) h =
          [listRevisionsCmd cfg svc, deployCmd cfg svc img, updateTrafficCmd cfg svc]
          @ map (deleteRevisionCmd cfg)
              (drop (keepRevs cfg) (revisionLines (out (w h (listRevisionsCmd cfg svc)))))
        \<and> length (revisionLines (out (w h (listRevisionsCmd cfg svc))))
            - length (drop (keepRevs cfg) (revisionLines (out (w h (listRevisionsCmd cfg svc)))))
          = min (keepRevs cfg) (length (revisionLines (out (w h (listRevisionsCmd cfg svc))))))"
proof (intro conjI impI)
  show "take 1 (cmdsRun w (deployService cfg svc img) h) = [listRevisionsCmd cfg svc]"
    unfolding deployService_unfold by simp
  show "prefix (cmdsRun w (deployService cfg svc img) h)
       ([listRevisionsCmd cfg svc, deployCmd cfg svc img, updateTrafficCmd cfg svc]
        @ map (deleteRevisionCmd cfg)
            (drop (keepRevs cfg) (revisionLines (out (w h (listRevisionsCmd cfg svc))))))"
    using deployService_prefix [of w cfg svc img h] by simp
  show "failFast (eventsRun w (deployService cfg svc img) h)
       (fst (exec w (deployService cfg svc img) h))"
    by (rule deployService_failFast)
  show "cmdsRun w (deployService cfg svc img) h =
          [listRevisionsCmd cfg svc, deployCmd cfg svc img, updateTrafficCmd cfg svc]
          @ map (deleteRevisionCmd cfg)
              (drop (keepRevs cfg) (revisionLines (out (w h (listRevisionsCmd cfg svc)))))"
    if "fst (exec w (deployService cfg svc img) h) = None"
    using deployService_success [OF that] by simp
  show "length (revisionLines (out (w h (listRevisionsCmd cfg svc))))
            - length (drop (keepRevs cfg) (revisionLines (out (w h (listRevisionsCmd cfg svc)))))
          = min (keepRevs cfg) (length (revisionLines (out (w h (listRevisionsCmd cfg svc)))))"
    by simp
qed

theorem deployService_snapshot_retention_witness:
  "fst (exec (exWorld (\<lambda>c. False)) (deployService exCfg ''api'' ''img'') []) = None
   \<and> cmdsRun (exWorld (\<lambda>c. False)) (deployService exCfg ''api'' ''img'') [] =
       [listRevisionsCmd exCfg ''api'', deployCmd exCfg ''api'' ''img'',
        updateTrafficCmd exCfg ''api'',
        deleteRevisionCmd exCfg ''rev2'', deleteRevisionCmd exCfg ''rev1'']"
proof -
  let ?w = "exWorld (\<lambda>c. False)"
  have a: "fst (exec ?w (deployService exCfg ''api'' ''img'') []) = None"
    by code_simp
  have k: "keepRevs exCfg = 1"
    by (simp add: exCfg_def)
  show ?thesis
    using deployService_snapshot_retention [of ?w exCfg "''api''" "''img''" "[]"] a
    by (simp add: exWorld_listing k)
qed

text \<open>
  The claim as the specification words it has every task delete the snapshot entries
  after the first \<^verbatim>\<open>keepRevs\<close>, and \<^verbatim>\<open>keepRevs\<close> old revisions remain. With one
  revision to keep and three listed, a task whose deploy fails deletes nothing; and with
  five to keep and three listed, three old revisions remain.
\<close>

theorem deployService_failed_deploy_counterexample:
  "revisionLines (out (exWorld (\<lambda>c. take 2 (cmd_args c) = [''run'', ''deploy'']) []
        (listRevisionsCmd exCfg ''api''))) = [''rev3'', ''rev2'', ''rev1'']
   \<and> keepRevs exCfg = 1
   \<and> cmdsRun (exWorld (\<lambda>c. take 2 (cmd_args c) = [''run'', ''deploy'']))
        (deployService exCfg ''api'' ''img'') []
      = [listRevisionsCmd exCfg ''api'', deployCmd exCfg ''api'' ''img'']
   \<and> cmdsRun (exWorld (\<lambda>c. False)) (deployService (exCfg\<lparr>keepRevs := 5\<rparr>) ''api'' ''img'') []
      = [listRevisionsCmd exCfg ''api'', deployCmd exCfg ''api'' ''img'',
         updateTrafficCmd exCfg ''api'']"
proof (intro conjI)
  show "revisionLines (out (exWorld (\<lambda>c. take 2 (cmd_args c) = [''run'', ''deploy'']) []
        (listRevisionsCmd exCfg ''api''))) = [''rev3'', ''rev2'', ''rev1'']"
    by (rule exWorld_listing)
  show "keepRevs exCfg = 1"
    by (simp add: exCfg_def)
  show "cmdsRun (exWorld (\<lambda>c. take 2 (cmd_args c) = [''run'', ''deploy'']))
        (deployService exCfg ''api'' ''img'') []
      = [listRevisionsCmd exCfg ''api'', deployCmd exCfg ''api'' ''img'']"
    by code_simp
  show "cmdsRun (exWorld (\<lambda>c. False)) (deployService (exCfg\<lparr>keepRevs := 5\<rparr>) ''api'' ''img'') []
      = [listRevisionsCmd exCfg ''api'', deployCmd exCfg ''api'' ''img'',
         updateTrafficCmd exCfg ''api'']"
    by code_simp
qed

section \<open>The pipeline: results\<close>

text \<open>
  C7. When the build command exits with an error, \<^verbatim>\<open>run\<close> returns that error, wrapped
  as the build error, and the build command is the only command it has run: no container
  build, no push, no deploy, no traffic update, no deletion of revisions or images.
\<close>

theorem run_build_failure_aborts:
  "exit_err (w h0 (buildCmd cfg)) = Some e \<longrightarrow>
     run unmarshal cfg w sched h0 =
       (Some (''build project: '' @ e), h0 @ [(buildCmd cfg, w h0 (buildCmd cfg))])
     \<and> map fst (drop (length h0) (snd (run unmarshal cfg w sched h0))) = [buildCmd cfg]"
  by (simp add: run_def exec_runCommandStreaming buildCmd_def)

theorem run_build_failure_aborts_witness:
  "exit_err (exWorld (\<lambda>c. cmd_name c = ''pnpm'') [] (buildCmd exCfg)) = Some ''exit status 1''
   \<and> run exUnmarshal exCfg (exWorld (\<lambda>c. cmd_name c = ''pnpm'')) [0, 0, 0] [] =
       (Some ''build project: exit status 1'',
        [(buildCmd exCfg, \<lparr>out = [], exit_err = Some ''exit status 1''\<rparr>)])"
proof -
  let ?w = "exWorld (\<lambda>c. cmd_name c = ''pnpm'')"
  have a: "exit_err (?w [] (buildCmd exCfg)) = Some ''exit status 1''"
    by code_simp
  have b: "?w [] (buildCmd exCfg) = \<lparr>out = [], exit_err = Some ''exit status 1''\<rparr>"
    by code_simp
  show ?thesis
    using run_build_failure_aborts [of ?w "[]" exCfg "''exit status 1''" exUnmarshal "[0, 0, 0]"] a
    by (simp add: b)
qed


section \<open>Digest extraction: results\<close>

lemma Fields_first:
  assumes "Fields s \<noteq> []"
  shows "Fields s ! 0 = firstToken s"
proof -
  from assms obtain c r where d: "dropWhile (\<lambda>c. isSpaceRune (fst c)) (decodeAll s) = c # r"
    unfolding Fields_def
    by (subst (asm) fieldsOf.simps) (auto split: list.splits)
  show ?thesis
    unfolding Fields_def
    by (subst fieldsOf.simps) (simp add: d firstToken_def)
qed

lemma TrimLeftSpace_suffix: "\<exists>pre. s = pre @ TrimLeftSpace s"
proof (induction s rule: TrimLeftSpace.induct)
  case (1 s)
  show ?case
  proof (cases "s \<noteq> [] \<and> isSpaceRune (fst (decodeRune s))")
    case True
    then have t: "TrimLeftSpace s = TrimLeftSpace (drop (snd (decodeRune s)) s)"
      by (subst TrimLeftSpace.simps) simp
    from True "1.IH" obtain pre
      where "drop (snd (decodeRune s)) s = pre @ TrimLeftSpace (drop (snd (decodeRune s)) s)"
      by blast
    then have "s = (take (snd (decodeRune s)) s @ pre) @ TrimLeftSpace s"
      unfolding t by (metis append.assoc append_take_drop_id)
    then show ?thesis
      by blast
  next
    case False
    then have "TrimLeftSpace s = s"
      by (subst TrimLeftSpace.simps) auto
    then show ?thesis
      by simp
  qed
qed

lemma TrimRightSpace_prefix: "\<exists>post. s = TrimRightSpace s @ post"
proof -
  have "\<exists>k. TrimRightSpace s = take k s"
    unfolding TrimRightSpace_def by (cases "lastNonSpace s") auto
  then obtain k where "TrimRightSpace s = take k s"
    by blast
  then have "s = TrimRightSpace s @ drop k s"
    by simp
  then show ?thesis
    by blast
qed

lemma TrimSpace_infix: "\<exists>pre post. s = pre @ TrimSpace s @ post"
proof -
  obtain pre where a: "s = pre @ TrimLeftSpace s"
    using TrimLeftSpace_suffix by blast
  obtain post where b: "TrimLeftSpace s = TrimRightSpace (TrimLeftSpace s) @ post"
    using TrimRightSpace_prefix by blast
  have "s = pre @ TrimSpace s @ post"
    unfolding TrimSpace_def using a b by simp
  then show ?thesis
    by blast
qed

lemma Split_second:
  assumes "Contains line ''digest:''"
  shows "length (Split line ''digest:'') \<ge> 2"
    and "Split line ''digest:'' ! 1 = markerSegment line"
proof -
  from assms obtain m where m: "Index line ''digest:'' = Some m"
    by (auto simp add: Contains_def)
  let ?rest = "drop (m + length ''digest:'') line"
  have s1: "Split line ''digest:'' = take m line # Split ?rest ''digest:''"
    by (subst Split.simps) (simp add: m)
  show "length (Split line ''digest:'') \<ge> 2"
    using Split_nonempty [of "''digest:''" ?rest] unfolding s1
    by (cases "Split ?rest ''digest:''") simp_all
  have "Split ?rest ''digest:'' ! 0 =
      (case Index ?rest ''digest:'' of None \<Rightarrow> ?rest | Some n \<Rightarrow> take n ?rest)"
    by (subst Split.simps) (simp split: option.splits)
  then show "Split line ''digest:'' ! 1 = markerSegment line"
    unfolding s1 by (simp add: markerSegment_def m Let_def cong: option.case_cong)
qed

lemma parseDigestLines_find:
  "parseDigestLines ls =
     (case find (\<lambda>l. Contains l ''digest:'' \<and> Fields (TrimSpace (markerSegment l)) \<noteq> [])
             (map TrimSpace ls) of
        None \<Rightarrow> Inl ''digest not found in output''
      | Some l \<Rightarrow> Inr (firstToken (TrimSpace (markerSegment l))))"
proof (induction ls)
  case Nil
  show ?case by simp
next
  case (Cons line0 rest)
  let ?line = "TrimSpace line0"
  show ?case
  proof (cases "Contains ?line ''digest:''")
    case False
    then show ?thesis using Cons.IH by simp
  next
    case True
    note sp = Split_second [OF True]
    show ?thesis
    proof (cases "Fields (TrimSpace (markerSegment ?line)) = []")
      case True
      with \<open>Contains ?line ''digest:''\<close> sp Cons.IH show ?thesis
        by (simp add: Let_def)
    next
      case False
      from Fields_first [OF False] False \<open>Contains ?line ''digest:''\<close> sp
      show ?thesis
        by (simp add: Let_def)
    qed
  qed
qed

lemma Contains_iff: "Contains s sep \<longleftrightarrow> (\<exists>pre post. s = pre @ sep @ post)"
proof
  assume "Contains s sep"
  then obtain i where i: "Index s sep = Some i"
    by (auto simp add: Contains_def)
  have "s = take i s @ take (length sep) (drop i s) @ drop (length sep) (drop i s)"
    by (simp only: append_take_drop_id)
  then have "s = take i s @ sep @ drop (length sep) (drop i s)"
    unfolding Index_take [OF i] .
  then show "\<exists>pre post. s = pre @ sep @ post"
    by blast
next
  assume "\<exists>pre post. s = pre @ sep @ post"
  then obtain pre post where s: "s = pre @ sep @ post"
    by blast
  have "Index (pre @ sep @ post) sep \<noteq> None"
  proof (induction pre)
    case Nil
    have "HasPrefix (sep @ post) sep"
      by (simp add: HasPrefix_def)
    then show ?case
      by (cases "sep @ post") simp_all
  next
    case (Cons a pre)
    then show ?case by simp
  qed
  then show "Contains s sep"
    by (simp add: Contains_def s)
qed

lemma Contains_TrimSpace:
  assumes "Contains (TrimSpace s) sep"
  shows "Contains s sep"
proof -
  obtain pre post where s: "s = pre @ TrimSpace s @ post"
    using TrimSpace_infix by blast
  from assms obtain pre' post' where t: "TrimSpace s = pre' @ sep @ post'"
    unfolding Contains_iff by blast
  have "s = (pre @ pre') @ sep @ (post' @ post)"
    by (subst s) (simp add: t)
  then show ?thesis
    unfolding Contains_iff by blast
qed

text \<open>
  C1, as the code has it. The lines of the transcript are scanned in order, each trimmed.
  The first line that contains \<^verbatim>\<open>digest:\<close> and has a token in the text between its
  first marker and the next marker (or the end of the line) decides: the digest is the
  first token of that text, trimmed, tokens being delimited by Unicode white space. When
  there is no such line, in particular when no line contains the marker, extraction fails
  with the digest-not-found error. On the line \<^verbatim>\<open>... digest: sha256:abc123 size: 528\<close> the
  result is \<^verbatim>\<open>sha256:abc123\<close>.
\<close>

theorem parseDigest_first_usable_line:
  "parseDigest output =
     (case find (\<lambda>l. Contains l ''digest:'' \<and> Fields (TrimSpace (markerSegment l)) \<noteq> [])
             (map TrimSpace (Split output [CHR 0x0A])) of
        None \<Rightarrow> Inl ''digest not found in output''
      | Some l \<Rightarrow> Inr (firstToken (TrimSpace (markerSegment l))))
   \<and> ((\<forall>l \<in> set (Split output [CHR 0x0A]). \<not> Contains l ''digest:'')
        \<longrightarrow> parseDigest output = Inl ''digest not found in output'')
   \<and> parseDigest ''... digest: sha256:abc123 size: 528'' = Inr ''sha256:abc123''"
proof (intro conjI impI)
  show f: "parseDigest output =
     (case find (\<lambda>l. Contains l ''digest:'' \<and> Fields (TrimSpace (markerSegment l)) \<noteq> [])
             (map TrimSpace (Split output [CHR 0x0A])) of
        None \<Rightarrow> Inl ''digest not found in output''
      | Some l \<Rightarrow> Inr (firstToken (TrimSpace (markerSegment l))))"
    unfolding parseDigest_def by (rule parseDigestLines_find)
  show "parseDigest output = Inl ''digest not found in output''"
    if "\<forall>l \<in> set (Split output [CHR 0x0A]). \<not> Contains l ''digest:''"
  proof -
    from that have "\<forall>l \<in> set (map TrimSpace (Split output [CHR 0x0A])). \<not> Contains l ''digest:''"
      using Contains_TrimSpace by auto
    then have "find (\<lambda>l. Contains l ''digest:'' \<and> Fields (TrimSpace (markerSegment l)) \<noteq> [])
             (map TrimSpace (Split output [CHR 0x0A])) = None"
      unfolding find_None_iff by blast
    with f show ?thesis by simp
  qed
  show "parseDigest ''... digest: sha256:abc123 size: 528'' = Inr ''sha256:abc123''"
    by code_simp
qed

theorem parseDigest_first_usable_line_witness:
  "list_all (\<lambda>l. \<not> Contains l ''digest:'') (Split (''Pushed'' @ [CHR 0x0A] @ ''done'') [CHR 0x0A])
   \<and> parseDigest (''Pushed'' @ [CHR 0x0A] @ ''done'') = Inl ''digest not found in output''
   \<and> parseDigest (''The push refers to repository'' @ [CHR 0x0A]
         @ ''latest: digest: sha256:abc123 size: 528'' @ [CHR 0x0A]) = Inr ''sha256:abc123''
   \<and> parseDigest (''latest: digest:'' @ [CHR 0xC2, CHR 0xA0] @ ''sha256:abc''
         @ [CHR 0xC2, CHR 0xA0] @ ''size: 1'') = Inr ''sha256:abc''"
proof -
  let ?t1 = "''The push refers to repository'' @ [CHR 0x0A]
         @ ''latest: digest: sha256:abc123 size: 528'' @ [CHR 0x0A]"
  let ?t2 = "''latest: digest:'' @ [CHR 0xC2, CHR 0xA0] @ ''sha256:abc''
         @ [CHR 0xC2, CHR 0xA0] @ ''size: 1''"
  have a: "list_all (\<lambda>l. \<not> Contains l ''digest:'')
      (Split (''Pushed'' @ [CHR 0x0A] @ ''done'') [CHR 0x0A])"
    by code_simp
  then have "\<forall>l \<in> set (Split (''Pushed'' @ [CHR 0x0A] @ ''done'') [CHR 0x0A]).
      \<not> Contains l ''digest:''"
    unfolding list_all_iff .
  with parseDigest_first_usable_line [of "''Pushed'' @ [CHR 0x0A] @ ''done''"]
  have r0: "parseDigest (''Pushed'' @ [CHR 0x0A] @ ''done'') = Inl ''digest not found in output''"
    by blast
  have e1: "(case find (\<lambda>l. Contains l ''digest:'' \<and> Fields (TrimSpace (markerSegment l)) \<noteq> [])
             (map TrimSpace (Split ?t1 [CHR 0x0A])) of
        None \<Rightarrow> Inl ''digest not found in output''
      | Some l \<Rightarrow> Inr (firstToken (TrimSpace (markerSegment l)))) = Inr ''sha256:abc123''"
    by code_simp
  have e2: "(case find (\<lambda>l. Contains l ''digest:'' \<and> Fields (TrimSpace (markerSegment l)) \<noteq> [])
             (map TrimSpace (Split ?t2 [CHR 0x0A])) of
        None \<Rightarrow> Inl ''digest not found in output''
      | Some l \<Rightarrow> Inr (firstToken (TrimSpace (markerSegment l)))) = Inr ''sha256:abc''"
    by code_simp
  have r1: "parseDigest ?t1 = Inr ''sha256:abc123''"
    using parseDigest_first_usable_line [of ?t1] unfolding e1 by blast
  have r2: "parseDigest ?t2 = Inr ''sha256:abc''"
    using parseDigest_first_usable_line [of ?t2] unfolding e2 by blast
  from a r0 r1 r2 show ?thesis
    by blast
qed

text \<open>
  The claim as the specification words it makes the first line that contains the marker
  authoritative. In a transcript whose first marker line is \<^verbatim>\<open>digest:\<close> alone the code
  goes on and takes the digest from a later line; and on a line where a second marker
  follows the first after white space only, the code finds no digest although the
  remainder after the marker has a first token.
\<close>

theorem parseDigest_first_marker_line_counterexample:
  "find (\<lambda>line. Contains line ''digest:'')
       (Split (''digest:'' @ [CHR 0x0A] @ ''x digest: sha256:abc'') [CHR 0x0A]) = Some ''digest:''
   \<and> parseDigest (''digest:'' @ [CHR 0x0A] @ ''x digest: sha256:abc'') = Inr ''sha256:abc''
   \<and> specDigest ''a digest: digest: sha256:abc'' = Inr ''digest:''
   \<and> parseDigest ''a digest: digest: sha256:abc'' = Inl ''digest not found in output''"
  by (intro conjI; code_simp)


section \<open>Fan-out and join: the commands that can run\<close>

lemma allCmds_bind:
  assumes "allCmds P m" and "\<And>a. allCmds P (f a)"
  shows "allCmds P (bind m f)"
  using assms by (induction m) auto

lemma allCmds_events:
  "allCmds P p \<Longrightarrow> \<forall>e \<in> set (eventsRun w p h). P (fst e)"
proof (induction p arbitrary: h)
  case (Return a)
  show ?case by simp
next
  case (Exec c k)
  from Exec.prems have c: "P c" and k: "allCmds P (k (w h c))"
    by simp_all
  have "\<forall>e \<in> set (eventsRun w (k (w h c)) (h @ [(c, w h c)])). P (fst e)"
    by (rule Exec.IH [OF rangeI k])
  with c show ?case by simp
qed

lemma histOk_refl: "histOk P h0 h0"
  by (simp add: histOk_def)

lemma histOk_append:
  assumes "histOk P h0 h" and "\<forall>e \<in> set t. P (fst e)"
  shows "histOk P h0 (h @ t)"
proof -
  from assms(1) obtain t0 where "h = h0 @ t0" "\<forall>e \<in> set t0. P (fst e)"
    unfolding histOk_def by blast
  with assms(2) have "h @ t = h0 @ (t0 @ t) \<and> (\<forall>e \<in> set (t0 @ t). P (fst e))"
    by auto
  then show ?thesis
    unfolding histOk_def by blast
qed

lemma tasksOk_update_None: "tasksOk P tasks \<Longrightarrow> tasksOk P (tasks[i := None])"
  unfolding tasksOk_def by (metis insertE option.distinct(1) set_update_subset_insert subsetD)

lemma tasksOk_update_Some:
  "tasksOk P tasks \<Longrightarrow> allCmds P p \<Longrightarrow> tasksOk P (tasks[i := Some p])"
  unfolding tasksOk_def by (metis insertE option.inject set_update_subset_insert subsetD)

lemma step_inv:
  assumes "tasksOk P tasks" and "histOk P h0 h"
    and "step w i (tasks, errs, h) = (tasks', errs', h')"
  shows "tasksOk P tasks' \<and> histOk P h0 h'"
proof (cases "i < length tasks")
  case False
  with assms show ?thesis by (simp add: step_def)
next
  case True
  show ?thesis
  proof (cases "tasks ! i")
    case None
    with True assms show ?thesis by (simp add: step_def)
  next
    case (Some p)
    then have "Some p \<in> set tasks"
      using True by (metis nth_mem)
    with assms(1) have ok: "allCmds P p"
      by (simp add: tasksOk_def)
    show ?thesis
    proof (cases p)
      case (Return r)
      with Some True assms(3) have "tasks' = tasks[i := None]" "h' = h"
        by (simp_all add: step_def)
      with assms show ?thesis
        by (simp add: tasksOk_update_None)
    next
      case (Exec c k)
      with Some True assms(3)
      have t: "tasks' = tasks[i := Some (k (w h c))]" and h: "h' = h @ [(c, w h c)]"
        by (simp_all add: step_def)
      from ok Exec have "P c" "allCmds P (k (w h c))"
        by simp_all
      with t h assms show ?thesis
        by (simp add: tasksOk_update_Some histOk_append)
    qed
  qed
qed

lemma finish_inv:
  assumes "tasksOk P tasks" and "histOk P h0 h"
    and "finish w i (tasks, errs, h) = (tasks', errs', h')"
  shows "tasksOk P tasks' \<and> histOk P h0 h'"
proof (cases "i < length tasks")
  case False
  with assms show ?thesis by (simp add: finish_def)
next
  case True
  show ?thesis
  proof (cases "tasks ! i")
    case None
    with True assms show ?thesis by (simp add: finish_def)
  next
    case (Some p)
    then have "Some p \<in> set tasks"
      using True by (metis nth_mem)
    with assms(1) have ok: "allCmds P p"
      by (simp add: tasksOk_def)
    from Some True assms(3)
    have t: "tasks' = tasks[i := None]" and h: "h' = snd (exec w p h)"
      by (simp_all add: finish_def split: prod.splits)
    have "h' = h @ eventsRun w p h"
      unfolding h by (rule exec_eventsRun)
    with allCmds_events [OF ok, of w h] assms(2) have "histOk P h0 h'"
      by (simp add: histOk_append)
    with t assms(1) show ?thesis
      by (simp add: tasksOk_update_None)
  qed
qed

lemma foldl_step_inv:
  assumes "tasksOk P tasks" and "histOk P h0 h"
    and "foldl (\<lambda>st i. step w i st) (tasks, errs, h) sched = (tasks', errs', h')"
  shows "tasksOk P tasks' \<and> histOk P h0 h'"
  using assms
proof (induction sched arbitrary: tasks errs h)
  case Nil
  then show ?case by simp
next
  case (Cons i sched)
  obtain t1 e1 h1 where s: "step w i (tasks, errs, h) = (t1, e1, h1)"
    by (cases "step w i (tasks, errs, h)") auto
  from step_inv [OF Cons.prems(1,2) s] have "tasksOk P t1" "histOk P h0 h1"
    by simp_all
  moreover from Cons.prems(3) s
  have "foldl (\<lambda>st i. step w i st) (t1, e1, h1) sched = (tasks', errs', h')"
    by simp
  ultimately show ?case
    by (rule Cons.IH)
qed

lemma foldl_finish_inv:
  assumes "tasksOk P tasks" and "histOk P h0 h"
    and "foldl (\<lambda>st i. finish w i st) (tasks, errs, h) is = (tasks', errs', h')"
  shows "tasksOk P tasks' \<and> histOk P h0 h'"
  using assms
proof (induction "is" arbitrary: tasks errs h)
  case Nil
  then show ?case by simp
next
  case (Cons i "is")
  obtain t1 e1 h1 where s: "finish w i (tasks, errs, h) = (t1, e1, h1)"
    by (cases "finish w i (tasks, errs, h)") auto
  from finish_inv [OF Cons.prems(1,2) s] have "tasksOk P t1" "histOk P h0 h1"
    by simp_all
  moreover from Cons.prems(3) s
  have "foldl (\<lambda>st i. finish w i st) (t1, e1, h1) is = (tasks', errs', h')"
    by simp
  ultimately show ?case
    by (rule Cons.IH)
qed

lemma joinAll_inv:
  assumes "tasksOk P tasks"
    and "joinAll w sched (tasks, errs, h) = (tasks', errs', h')"
  shows "histOk P h h'"
proof -
  obtain t1 e1 h1 where s: "foldl (\<lambda>st i. step w i st) (tasks, errs, h) sched = (t1, e1, h1)"
    by (cases "foldl (\<lambda>st i. step w i st) (tasks, errs, h) sched") auto
  from foldl_step_inv [OF assms(1) histOk_refl s] have a: "tasksOk P t1" "histOk P h h1"
    by simp_all
  from assms(2) s
  have "foldl (\<lambda>st i. finish w i st) (t1, e1, h1) [0 ..< length tasks] = (tasks', errs', h')"
    by (simp add: joinAll_def)
  from foldl_finish_inv [OF a this] show ?thesis
    by simp
qed

lemma deployServices_cmds:
  assumes "\<And>service. service \<in> set (services cfg) \<Longrightarrow> allCmds P (deployService cfg service img)"
  shows "histOk P h (snd (deployServices cfg img w sched h))"
proof -
  let ?tasks = "map (\<lambda>service. Some (deployService cfg service img)) (services cfg)"
  obtain tasks' errs' h' where j: "joinAll w sched (?tasks, [], h) = (tasks', errs', h')"
    by (cases "joinAll w sched (?tasks, [], h)") auto
  have "tasksOk P ?tasks"
    using assms by (auto simp add: tasksOk_def)
  from joinAll_inv [OF this j] have "histOk P h h'" .
  moreover have "snd (deployServices cfg img w sched h) = h'"
    by (simp add: deployServices_def j Let_def)
  ultimately show ?thesis by simp
qed

lemma allCmds_deleteRevisions:
  assumes "\<And>revision. P (deleteRevisionCmd cfg revision)"
  shows "allCmds P (deleteRevisions cfg revs)"
  by (induction revs)
    (simp_all del: deleteRevisions.simps(2) add: deleteRevisions_Cons assms split: option.splits)

lemma allCmds_deployService:
  assumes "P (listRevisionsCmd cfg service)" and "P (deployCmd cfg service img)"
    and "P (updateTrafficCmd cfg service)" and "\<And>revision. P (deleteRevisionCmd cfg revision)"
  shows "allCmds P (deployService cfg service img)"
  unfolding deployService_unfold
  using assms by (simp add: allCmds_deleteRevisions split: option.splits)

lemma allCmds_deleteImages:
  assumes "\<And>digest. P (deleteImageCmd cfg repo digest)"
  shows "allCmds P (deleteImages cfg repo tags)"
  by (induction tags)
    (simp_all del: deleteImages.simps(2) add: deleteImages_Cons assms split: option.splits)

lemma allCmds_cleanupOldImages:
  assumes "P (listTagsCmd cfg (registryHost cfg @ ''/'' @ project cfg @ ''/'' @ img))"
    and "\<And>digest. P (deleteImageCmd cfg (registryHost cfg @ ''/'' @ project cfg @ ''/'' @ img) digest)"
  shows "allCmds P (cleanupOldImages unmarshal cfg img)"
  unfolding cleanupOldImages_unfold
  using assms by (simp add: allCmds_deleteImages split: option.splits sum.splits)


section \<open>The pipeline: stages\<close>

lemma run_unfold:
  "run unmarshal cfg w sched h0 =
     (case exit_err (buildOutcome w cfg h0) of
        Some e \<Rightarrow> (Some (''build project: '' @ e), h0 @ [(buildCmd cfg, buildOutcome w cfg h0)])
      | None \<Rightarrow>
         (case exit_err (dockerBuildOutcome w cfg h0) of
            Some e \<Rightarrow> (Some (''docker build: '' @ e),
                       h0 @ [(buildCmd cfg, buildOutcome w cfg h0),
                             (dockerBuildCmd cfg, dockerBuildOutcome w cfg h0)])
          | None \<Rightarrow>
             (case exit_err (pushOutcome w cfg h0) of
                Some e \<Rightarrow> (Some (''docker push: '' @ e @ [CHR 0x0A] @ out (pushOutcome w cfg h0)),
                           afterPush w cfg h0)
              | None \<Rightarrow>
                 (case parseDigest (out (pushOutcome w cfg h0)) of
                    Inl e \<Rightarrow> (Some (''parse digest: '' @ e @ [CHR 0x0A] @ out (pushOutcome w cfg h0)),
                              afterPush w cfg h0)
                  | Inr digest \<Rightarrow>
                     (case deployServices cfg (imageRepo cfg @ ''@'' @ digest) w sched
                             (afterPush w cfg h0) of
                        (Some e, h4) \<Rightarrow> (Some e, h4)
                      | (None, h4) \<Rightarrow>
                          if \<not> beta cfg
                          then exec w (cleanupOldImages unmarshal cfg (image_name cfg)) h4
                          else (None, h4))))))"
  unfolding run_def exec_runCommandStreaming exec_runCommandCapture Let_def
    buildOutcome_def dockerBuildOutcome_def pushOutcome_def afterPush_def
    buildCmd_def dockerBuildCmd_def dockerPushCmd_def imageTag_def imageRepo_def
  by (simp split: option.splits sum.splits prod.splits cong: option.case_cong sum.case_cong)


lemma histOk_trans:
  assumes "histOk P h0 h1" and "histOk P h1 h2"
  shows "histOk P h0 h2"
proof -
  from assms(2) obtain t where "h2 = h1 @ t" "\<forall>e \<in> set t. P (fst e)"
    unfolding histOk_def by blast
  with histOk_append [OF assms(1), of t] show ?thesis by simp
qed

lemma histOk_cmds:
  assumes "histOk P h0 h"
  shows "\<forall>c \<in> set (map fst (drop (length h0) h)). P c"
proof -
  from assms obtain t where "h = h0 @ t" "\<forall>e \<in> set t. P (fst e)"
    unfolding histOk_def by blast
  then show ?thesis by simp
qed

lemma exec_histOk:
  assumes "allCmds P p"
  shows "histOk P h (snd (exec w p h))"
  unfolding exec_eventsRun [of w p h]
  by (rule histOk_append [OF histOk_refl allCmds_events [OF assms]])

lemma run_histOk:
  assumes b: "P (buildCmd cfg)" and d: "P (dockerBuildCmd cfg)" and p: "P (dockerPushCmd cfg)"
    and s: "\<And>digest service. parseDigest (out (pushOutcome w cfg h0)) = Inr digest
              \<Longrightarrow> service \<in> set (services cfg)
              \<Longrightarrow> allCmds P (deployService cfg service (imageRepo cfg @ ''@'' @ digest))"
    and c: "\<not> beta cfg \<Longrightarrow> allCmds P (cleanupOldImages unmarshal cfg (image_name cfg))"
  shows "histOk P h0 (snd (run unmarshal cfg w sched h0))"
proof -
  have h1: "histOk P h0 (h0 @ [(buildCmd cfg, buildOutcome w cfg h0)])"
    by (rule histOk_append [OF histOk_refl]) (simp add: b)
  have h2: "histOk P h0 (h0 @ [(buildCmd cfg, buildOutcome w cfg h0),
                             (dockerBuildCmd cfg, dockerBuildOutcome w cfg h0)])"
    by (rule histOk_append [OF histOk_refl]) (simp add: b d)
  have h3: "histOk P h0 (afterPush w cfg h0)"
    unfolding afterPush_def
    by (rule histOk_append [OF histOk_refl]) (simp add: b d p)
  have h4: "histOk P h0 (snd (case deployServices cfg (imageRepo cfg @ ''@'' @ digest) w sched
                             (afterPush w cfg h0) of
                        (Some e, h4) \<Rightarrow> (Some e, h4)
                      | (None, h4) \<Rightarrow>
                          if \<not> beta cfg
                          then exec w (cleanupOldImages unmarshal cfg (image_name cfg)) h4
                          else (None, h4)))"
    if pd: "parseDigest (out (pushOutcome w cfg h0)) = Inr digest" for digest
  proof -
    obtain r h' where ds: "deployServices cfg (imageRepo cfg @ ''@'' @ digest) w sched
        (afterPush w cfg h0) = (r, h')"
      by (cases "deployServices cfg (imageRepo cfg @ ''@'' @ digest) w sched (afterPush w cfg h0)")
        auto
    have "histOk P (afterPush w cfg h0)
        (snd (deployServices cfg (imageRepo cfg @ ''@'' @ digest) w sched (afterPush w cfg h0)))"
      by (rule deployServices_cmds) (rule s [OF pd])
    with ds have "histOk P (afterPush w cfg h0) h'"
      by simp
    from histOk_trans [OF h3 this] have hh: "histOk P h0 h'" .
    show ?thesis
    proof (cases r)
      case (Some e)
      with ds hh show ?thesis by simp
    next
      case None
      show ?thesis
      proof (cases "beta cfg")
        case True
        with None ds hh show ?thesis by simp
      next
        case False
        have "histOk P h' (snd (exec w (cleanupOldImages unmarshal cfg (image_name cfg)) h'))"
          by (rule exec_histOk [OF c [OF False]])
        from histOk_trans [OF hh this] None ds False show ?thesis by simp
      qed
    qed
  qed
  show ?thesis
    unfolding run_unfold
    using h1 h2 h3 h4 by (simp split: option.splits sum.splits)
qed


section \<open>Image cleanup: results\<close>

lemma not_images_deployService:
  "allCmds (\<lambda>c. \<not> isImagesCmd c) (deployService cfg service img)"
  by (rule allCmds_deployService)
    (simp_all add: isImagesCmd_def listRevisionsCmd_def deployCmd_def updateTrafficCmd_def
      deleteRevisionCmd_def)

lemma beta_no_images:
  assumes "beta cfg"
  shows "\<forall>c \<in> set (runCmds unmarshal cfg w sched h0). \<not> isImagesCmd c"
  unfolding runCmds_def
proof (rule histOk_cmds, rule run_histOk)
  show "\<not> isImagesCmd (buildCmd cfg)"
    by (simp add: isImagesCmd_def buildCmd_def)
  show "\<not> isImagesCmd (dockerBuildCmd cfg)"
    by (simp add: isImagesCmd_def dockerBuildCmd_def)
  show "\<not> isImagesCmd (dockerPushCmd cfg)"
    by (simp add: isImagesCmd_def dockerPushCmd_def)
  show "allCmds (\<lambda>c. \<not> isImagesCmd c) (deployService cfg service (imageRepo cfg @ ''@'' @ digest))"
    for digest service
    by (rule not_images_deployService)
  show "allCmds (\<lambda>c. \<not> isImagesCmd c) (cleanupOldImages unmarshal cfg (image_name cfg))"
    if "\<not> beta cfg"
    using that assms by simp
qed

lemma run_reaches_cleanup:
  assumes "\<not> beta cfg"
    and "exit_err (buildOutcome w cfg h0) = None"
    and "exit_err (dockerBuildOutcome w cfg h0) = None"
    and "exit_err (pushOutcome w cfg h0) = None"
    and "parseDigest (out (pushOutcome w cfg h0)) = Inr digest"
    and "fst (deployServices cfg (imageRepo cfg @ ''@'' @ digest) w sched (afterPush w cfg h0)) = None"
  shows "run unmarshal cfg w sched h0 =
     exec w (cleanupOldImages unmarshal cfg (image_name cfg))
       (snd (deployServices cfg (imageRepo cfg @ ''@'' @ digest) w sched (afterPush w cfg h0)))"
  unfolding run_unfold using assms
  by (auto split: prod.splits)

text \<open>
  C5. On a beta run no \<^verbatim>\<open>gcloud container images\<close> command is run at all, whatever
  \<^verbatim>\<open>keepImgs\<close> is. On a run that is not beta, once build, container build and push have
  succeeded, the digest is found and the join returns no error, the rest of the run is
  the cleanup pass and its result is the run's result. When the tag listing succeeds and
  decodes to the records \<open>tags\<close>, the pass runs, after the listing, deletions
  \<^verbatim>\<open>repo@digest\<close> taken in order from the records after the first \<^verbatim>\<open>keepImgs\<close> that have
  a non-empty digest (those with an empty digest are passed over); it stops at the first
  deletion that fails, with an error; and when it ends without error it has deleted all
  of them.
\<close>

theorem cleanupOldImages_pass:
  "(beta cfg \<longrightarrow> (\<forall>c \<in> set (runCmds unmarshal cfg w sched h0). \<not> isImagesCmd c))
   \<and> (\<not> beta cfg
       \<and> exit_err (buildOutcome w cfg h0) = None
       \<and> exit_err (dockerBuildOutcome w cfg h0) = None
       \<and> exit_err (pushOutcome w cfg h0) = None
       \<and> parseDigest (out (pushOutcome w cfg h0)) = Inr digest
       \<and> fst (deployServices cfg (imageRepo cfg @ ''@'' @ digest) w sched (afterPush w cfg h0)) = None
      \<longrightarrow> run unmarshal cfg w sched h0 =
            exec w (cleanupOldImages unmarshal cfg (image_name cfg))
              (snd (deployServices cfg (imageRepo cfg @ ''@'' @ digest) w sched (afterPush w cfg h0))))
   \<and> (exit_err (w h (listTagsCmd cfg (imageRepo cfg))) = None
       \<and> unmarshal (out (w h (listTagsCmd cfg (imageRepo cfg)))) = Inr tags
      \<longrightarrow> prefix (cmdsRun w (cleanupOldImages unmarshal cfg (image_name cfg)) h)
            (listTagsCmd cfg (imageRepo cfg)
             # map (deleteImageCmd cfg (imageRepo cfg))
                 (filter (\<lambda>d. d \<noteq> []) (drop (keepImgs cfg) tags)))
          \<and> failFast (eventsRun w (cleanupOldImages unmarshal cfg (image_name cfg)) h)
              (fst (exec w (cleanupOldImages unmarshal cfg (image_name cfg)) h))
          \<and> (fst (exec w (cleanupOldImages unmarshal cfg (image_name cfg)) h) = None \<longrightarrow>
               cmdsRun w (cleanupOldImages unmarshal cfg (image_name cfg)) h =
                 listTagsCmd cfg (imageRepo cfg)
                 # map (deleteImageCmd cfg (imageRepo cfg))
                     (filter (\<lambda>d. d \<noteq> []) (drop (keepImgs cfg) tags))))"
proof (intro conjI impI)
  show "\<forall>c \<in> set (runCmds unmarshal cfg w sched h0). \<not> isImagesCmd c" if "beta cfg"
    by (rule beta_no_images [OF that])
  show "run unmarshal cfg w sched h0 =
            exec w (cleanupOldImages unmarshal cfg (image_name cfg))
              (snd (deployServices cfg (imageRepo cfg @ ''@'' @ digest) w sched (afterPush w cfg h0)))"
    if "\<not> beta cfg
       \<and> exit_err (buildOutcome w cfg h0) = None
       \<and> exit_err (dockerBuildOutcome w cfg h0) = None
       \<and> exit_err (pushOutcome w cfg h0) = None
       \<and> parseDigest (out (pushOutcome w cfg h0)) = Inr digest
       \<and> fst (deployServices cfg (imageRepo cfg @ ''@'' @ digest) w sched (afterPush w cfg h0)) = None"
    using that by (intro run_reaches_cleanup) simp_all
  have repo: "imageRepo cfg = registryHost cfg @ ''/'' @ project cfg @ ''/'' @ image_name cfg"
    by (simp add: imageRepo_def)
  assume a: "exit_err (w h (listTagsCmd cfg (imageRepo cfg))) = None
       \<and> unmarshal (out (w h (listTagsCmd cfg (imageRepo cfg)))) = Inr tags"
  from a have a1: "exit_err (w h (listTagsCmd cfg (imageRepo cfg))) = None"
    and a2: "unmarshal (out (w h (listTagsCmd cfg (imageRepo cfg)))) = Inr tags"
    by simp_all
  show "prefix (cmdsRun w (cleanupOldImages unmarshal cfg (image_name cfg)) h)
            (listTagsCmd cfg (imageRepo cfg)
             # map (deleteImageCmd cfg (imageRepo cfg))
                 (filter (\<lambda>d. d \<noteq> []) (drop (keepImgs cfg) tags)))"
    using cleanupOldImages_prefix [where w = w and h = h and cfg = cfg and unmarshal = unmarshal
        and img = "image_name cfg", OF a1 a2 repo]
    by simp
  show "failFast (eventsRun w (cleanupOldImages unmarshal cfg (image_name cfg)) h)
              (fst (exec w (cleanupOldImages unmarshal cfg (image_name cfg)) h))"
    by (rule cleanupOldImages_failFast [where w = w and h = h and cfg = cfg and unmarshal = unmarshal
        and img = "image_name cfg", OF a1 a2 repo])
  show "cmdsRun w (cleanupOldImages unmarshal cfg (image_name cfg)) h =
                 listTagsCmd cfg (imageRepo cfg)
                 # map (deleteImageCmd cfg (imageRepo cfg))
                     (filter (\<lambda>d. d \<noteq> []) (drop (keepImgs cfg) tags))"
    if "fst (exec w (cleanupOldImages unmarshal cfg (image_name cfg)) h) = None"
    using cleanupOldImages_success [where w = w and h = h and cfg = cfg and unmarshal = unmarshal
        and img = "image_name cfg", OF a1 a2 repo that]
    by simp
qed

theorem cleanupOldImages_pass_witness:
  "beta (exCfg\<lparr>beta := True\<rparr>)
   \<and> list_all (\<lambda>c. \<not> isImagesCmd c)
       (runCmds exUnmarshal (exCfg\<lparr>beta := True\<rparr>) (exWorld (\<lambda>c. False)) [0, 0] [])
   \<and> \<not> beta exCfg
   \<and> fst (deployServices exCfg (imageRepo exCfg @ ''@'' @ ''sha256:abc123'')
            (exWorld (\<lambda>c. c = deleteImageCmd exCfg (imageRepo exCfg) ''d2'')) [0, 0]
            (afterPush (exWorld (\<lambda>c. c = deleteImageCmd exCfg (imageRepo exCfg) ''d2'')) exCfg []))
       = None
   \<and> fst (run exUnmarshal exCfg
            (exWorld (\<lambda>c. c = deleteImageCmd exCfg (imageRepo exCfg) ''d2'')) [0, 0] [])
       = Some ''delete image gcr.io/p/web@d2: exit status 1''
   \<and> cmdsRun (exWorld (\<lambda>c. c = deleteImageCmd exCfg (imageRepo exCfg) ''d2''))
        (cleanupOldImages exUnmarshal exCfg (image_name exCfg)) []
       = [listTagsCmd exCfg (imageRepo exCfg), deleteImageCmd exCfg (imageRepo exCfg) ''d2'']
   \<and> fst (exec (exWorld (\<lambda>c. False)) (cleanupOldImages exUnmarshal exCfg (image_name exCfg)) [])
       = None
   \<and> cmdsRun (exWorld (\<lambda>c. False)) (cleanupOldImages exUnmarshal exCfg (image_name exCfg)) []
       = [listTagsCmd exCfg (imageRepo exCfg), deleteImageCmd exCfg (imageRepo exCfg) ''d2'',
          deleteImageCmd exCfg (imageRepo exCfg) ''d3'']"
proof -
  let ?w = "exWorld (\<lambda>c. False)"
  let ?wf = "exWorld (\<lambda>c. c = deleteImageCmd exCfg (imageRepo exCfg) ''d2'')"
  let ?tags = "[''d1'', [], ''d2'', ''d3'']"
  let ?h4 = "snd (deployServices exCfg (imageRepo exCfg @ ''@'' @ ''sha256:abc123'') ?wf [0, 0]
      (afterPush ?wf exCfg []))"
  have beta: "beta (exCfg\<lparr>beta := True\<rparr>)"
    by simp
  from cleanupOldImages_pass [of "exCfg\<lparr>beta := True\<rparr>" exUnmarshal ?w "[0, 0]" "[]"] beta
  have p1: "list_all (\<lambda>c. \<not> isImagesCmd c)
       (runCmds exUnmarshal (exCfg\<lparr>beta := True\<rparr>) ?w [0, 0] [])"
    unfolding list_all_iff by blast
  have nb: "\<not> beta exCfg"
    by (simp add: exCfg_def)
  have s1: "exit_err (buildOutcome ?wf exCfg []) = None"
    by code_simp
  have s2: "exit_err (dockerBuildOutcome ?wf exCfg []) = None"
    by code_simp
  have s3: "exit_err (pushOutcome ?wf exCfg []) = None"
    by code_simp
  have s4: "parseDigest (out (pushOutcome ?wf exCfg [])) = Inr ''sha256:abc123''"
    by code_simp
  have s5: "fst (deployServices exCfg (imageRepo exCfg @ ''@'' @ ''sha256:abc123'') ?wf [0, 0]
      (afterPush ?wf exCfg [])) = None"
    by code_simp
  have l1: "exit_err (?wf ?h4 (listTagsCmd exCfg (imageRepo exCfg))) = None"
    by code_simp
  have l2: "exUnmarshal (out (?wf ?h4 (listTagsCmd exCfg (imageRepo exCfg)))) = Inr ?tags"
    by code_simp
  have f: "fst (exec ?wf (cleanupOldImages exUnmarshal exCfg (image_name exCfg)) ?h4)
      = Some ''delete image gcr.io/p/web@d2: exit status 1''"
    by code_simp
  note t = cleanupOldImages_pass [of exCfg exUnmarshal ?wf "[0, 0]" "[]" "''sha256:abc123''"]
  from t nb s1 s2 s3 s4 s5
  have "run exUnmarshal exCfg ?wf [0, 0] [] =
      exec ?wf (cleanupOldImages exUnmarshal exCfg (image_name exCfg)) ?h4"
    by blast
  with f have p2: "fst (run exUnmarshal exCfg ?wf [0, 0] [])
      = Some ''delete image gcr.io/p/web@d2: exit status 1''"
    by simp
  have p3: "cmdsRun ?wf (cleanupOldImages exUnmarshal exCfg (image_name exCfg)) []
       = [listTagsCmd exCfg (imageRepo exCfg), deleteImageCmd exCfg (imageRepo exCfg) ''d2'']"
    by code_simp
  have k: "keepImgs exCfg = 1"
    by (simp add: exCfg_def)
  have m1: "exit_err (?w [] (listTagsCmd exCfg (imageRepo exCfg))) = None"
    by code_simp
  have m2: "exUnmarshal (out (?w [] (listTagsCmd exCfg (imageRepo exCfg)))) = Inr ?tags"
    by code_simp
  have m3: "fst (exec ?w (cleanupOldImages exUnmarshal exCfg (image_name exCfg)) []) = None"
    by code_simp
  from cleanupOldImages_pass [of exCfg exUnmarshal ?w "[0, 0]" "[]" "''sha256:abc123''" "[]" ?tags]
    m1 m2 m3
  have "cmdsRun ?w (cleanupOldImages exUnmarshal exCfg (image_name exCfg)) [] =
      listTagsCmd exCfg (imageRepo exCfg)
      # map (deleteImageCmd exCfg (imageRepo exCfg))
          (filter (\<lambda>d. d \<noteq> []) (drop (keepImgs exCfg) ?tags))"
    by blast
  then have p4: "cmdsRun ?w (cleanupOldImages exUnmarshal exCfg (image_name exCfg)) []
       = [listTagsCmd exCfg (imageRepo exCfg), deleteImageCmd exCfg (imageRepo exCfg) ''d2'',
          deleteImageCmd exCfg (imageRepo exCfg) ''d3'']"
    by (simp add: k)
  show ?thesis
    using beta p1 nb s5 p2 p3 m3 p4 by blast
qed


section \<open>Immutable image reference: results\<close>

lemma deploy_cmds_digest_form:
  "\<forall>c \<in> set (runCmds unmarshal cfg w sched h0).
     isDeployCmd c \<longrightarrow>
       (\<exists>service \<in> set (services cfg). \<exists>digest.
          parseDigest (out (pushOutcome w cfg h0)) = Inr digest
          \<and> c = deployCmd cfg service (imageRepo cfg @ ''@'' @ digest))"
  unfolding runCmds_def
proof (rule histOk_cmds, rule run_histOk)
  let ?P = "\<lambda>c. isDeployCmd c \<longrightarrow>
       (\<exists>service \<in> set (services cfg). \<exists>digest.
          parseDigest (out (pushOutcome w cfg h0)) = Inr digest
          \<and> c = deployCmd cfg service (imageRepo cfg @ ''@'' @ digest))"
  show "?P (buildCmd cfg)"
    by (simp add: isDeployCmd_def buildCmd_def)
  show "?P (dockerBuildCmd cfg)"
    by (simp add: isDeployCmd_def dockerBuildCmd_def)
  show "?P (dockerPushCmd cfg)"
    by (simp add: isDeployCmd_def dockerPushCmd_def)
  show "allCmds ?P (deployService cfg service (imageRepo cfg @ ''@'' @ digest))"
    if "parseDigest (out (pushOutcome w cfg h0)) = Inr digest" and "service \<in> set (services cfg)"
    for digest service
  proof (rule allCmds_deployService)
    show "?P (listRevisionsCmd cfg service)"
      by (simp add: isDeployCmd_def listRevisionsCmd_def)
    show "?P (deployCmd cfg service (imageRepo cfg @ ''@'' @ digest))"
      using that by blast
    show "?P (updateTrafficCmd cfg service)"
      by (simp add: isDeployCmd_def updateTrafficCmd_def)
    show "?P (deleteRevisionCmd cfg revision)" for revision
      by (simp add: isDeployCmd_def deleteRevisionCmd_def)
  qed
  show "allCmds ?P (cleanupOldImages unmarshal cfg (image_name cfg))"
    by (rule allCmds_cleanupOldImages)
      (simp_all add: isDeployCmd_def listTagsCmd_def deleteImageCmd_def)
qed

lemma run_first_two:
  assumes "exit_err (buildOutcome w cfg h0) = None"
  shows "take 2 (runCmds unmarshal cfg w sched h0) = [buildCmd cfg, dockerBuildCmd cfg]"
proof -
  have ds: "\<exists>t. snd (deployServices cfg img w sched h) = h @ t" for img h
  proof -
    have "histOk (\<lambda>c. True) h (snd (deployServices cfg img w sched h))"
      by (rule deployServices_cmds) (simp add: allCmds_deployService)
    then show ?thesis
      unfolding histOk_def by blast
  qed
  have "\<exists>t. snd (run unmarshal cfg w sched h0) =
      h0 @ [(buildCmd cfg, buildOutcome w cfg h0),
            (dockerBuildCmd cfg, dockerBuildOutcome w cfg h0)] @ t"
  proof (cases "exit_err (dockerBuildOutcome w cfg h0)")
    case (Some e)
    with assms show ?thesis unfolding run_unfold by simp
  next
    case d: None
    show ?thesis
    proof (cases "exit_err (pushOutcome w cfg h0)")
      case (Some e)
      with assms d show ?thesis unfolding run_unfold by (simp add: afterPush_def)
    next
      case p: None
      show ?thesis
      proof (cases "parseDigest (out (pushOutcome w cfg h0))")
        case (Inl e)
        with assms d p show ?thesis unfolding run_unfold by (simp add: afterPush_def)
      next
        case (Inr digest)
        obtain r h4 where r: "deployServices cfg (imageRepo cfg @ ''@'' @ digest) w sched
            (afterPush w cfg h0) = (r, h4)"
          by (cases "deployServices cfg (imageRepo cfg @ ''@'' @ digest) w sched
            (afterPush w cfg h0)") auto
        from ds [of "imageRepo cfg @ ''@'' @ digest" "afterPush w cfg h0"] r
        obtain t where t: "h4 = afterPush w cfg h0 @ t"
          by auto
        obtain t' where t': "snd (exec w (cleanupOldImages unmarshal cfg (image_name cfg)) h4)
            = h4 @ t'"
          using exec_extends by blast
        from assms d p Inr r t t' show ?thesis
          unfolding run_unfold by (cases r) (auto simp add: afterPush_def)
      qed
    qed
  qed
  then show ?thesis
    unfolding runCmds_def by auto
qed


text \<open>
  C6. After a successful build the next command is the container build, tagged
  \<^verbatim>\<open>registryHost/project/image\<close> on a release run and \<^verbatim>\<open>registryHost/project/image:dev\<close>
  on a beta run. Every \<^verbatim>\<open>gcloud run deploy\<close> command of the run is the deploy of a
  configured service with \<^verbatim>\<open>--image=registryHost/project/image@digest\<close>, the digest
  being the one extracted from the push transcript; its image argument is never the tag.
\<close>

theorem deploy_by_digest:
  "(exit_err (buildOutcome w cfg h0) = None \<longrightarrow>
      take 2 (runCmds unmarshal cfg w sched h0) = [buildCmd cfg, dockerBuildCmd cfg])
   \<and> dockerBuildCmd cfg =
       Command Streaming (workdir cfg) ''docker''
         [''build'', ''--platform'', ''linux/amd64'', ''-t'', imageTag cfg, ''.'']
   \<and> imageTag cfg =
       (if beta cfg
        then registryHost cfg @ ''/'' @ project cfg @ ''/'' @ image_name cfg @ '':dev''
        else registryHost cfg @ ''/'' @ project cfg @ ''/'' @ image_name cfg)
   \<and> (\<forall>c \<in> set (runCmds unmarshal cfg w sched h0).
        isDeployCmd c \<longrightarrow>
          (\<exists>service \<in> set (services cfg). \<exists>digest.
             parseDigest (out (pushOutcome w cfg h0)) = Inr digest
             \<and> c = deployCmd cfg service (imageRepo cfg @ ''@'' @ digest)
             \<and> cmd_args c ! 3 =
                 ''--image='' @ registryHost cfg @ ''/'' @ project cfg @ ''/'' @ image_name cfg
                   @ ''@'' @ digest
             \<and> cmd_args c ! 3 \<noteq> ''--image='' @ imageTag cfg))"
proof (intro conjI impI ballI)
  show "take 2 (runCmds unmarshal cfg w sched h0) = [buildCmd cfg, dockerBuildCmd cfg]"
    if "exit_err (buildOutcome w cfg h0) = None"
    by (rule run_first_two [OF that])
  show "dockerBuildCmd cfg =
       Command Streaming (workdir cfg) ''docker''
         [''build'', ''--platform'', ''linux/amd64'', ''-t'', imageTag cfg, ''.'']"
    by (simp add: dockerBuildCmd_def)
  show "imageTag cfg =
       (if beta cfg
        then registryHost cfg @ ''/'' @ project cfg @ ''/'' @ image_name cfg @ '':dev''
        else registryHost cfg @ ''/'' @ project cfg @ ''/'' @ image_name cfg)"
    by (simp add: imageTag_def imageRepo_def)
  fix c
  assume c: "c \<in> set (runCmds unmarshal cfg w sched h0)" and d: "isDeployCmd c"
  from deploy_cmds_digest_form [of unmarshal cfg w sched h0] c d
  obtain service digest where s: "service \<in> set (services cfg)"
    and pd: "parseDigest (out (pushOutcome w cfg h0)) = Inr digest"
    and eq: "c = deployCmd cfg service (imageRepo cfg @ ''@'' @ digest)"
    by blast
  have a3: "cmd_args c ! 3 =
      ''--image='' @ registryHost cfg @ ''/'' @ project cfg @ ''/'' @ image_name cfg
        @ ''@'' @ digest"
    unfolding eq by (simp add: deployCmd_def imageRepo_def)
  have "cmd_args c ! 3 \<noteq> ''--image='' @ imageTag cfg"
    unfolding a3 by (simp add: imageTag_def imageRepo_def)
  with s pd eq a3
  show "\<exists>service \<in> set (services cfg). \<exists>digest.
             parseDigest (out (pushOutcome w cfg h0)) = Inr digest
             \<and> c = deployCmd cfg service (imageRepo cfg @ ''@'' @ digest)
             \<and> cmd_args c ! 3 =
                 ''--image='' @ registryHost cfg @ ''/'' @ project cfg @ ''/'' @ image_name cfg
                   @ ''@'' @ digest
             \<and> cmd_args c ! 3 \<noteq> ''--image='' @ imageTag cfg"
    by blast
qed

theorem deploy_by_digest_witness:
  "exit_err (buildOutcome (exWorld (\<lambda>c. False)) exCfg []) = None
   \<and> take 2 (runCmds exUnmarshal exCfg (exWorld (\<lambda>c. False)) [0, 0] [])
       = [buildCmd exCfg, dockerBuildCmd exCfg]
   \<and> deployCmd exCfg ''api'' ''gcr.io/p/web@sha256:abc123''
       \<in> set (runCmds exUnmarshal exCfg (exWorld (\<lambda>c. False)) [0, 0] [])
   \<and> isDeployCmd (deployCmd exCfg ''api'' ''gcr.io/p/web@sha256:abc123'')
   \<and> parseDigest (out (pushOutcome (exWorld (\<lambda>c. False)) exCfg [])) = Inr ''sha256:abc123''
   \<and> cmd_args (deployCmd exCfg ''api'' ''gcr.io/p/web@sha256:abc123'') ! 3
       \<noteq> ''--image='' @ imageTag exCfg"
proof -
  let ?w = "exWorld (\<lambda>c. False)"
  let ?c = "deployCmd exCfg ''api'' ''gcr.io/p/web@sha256:abc123''"
  note t = deploy_by_digest [of ?w exCfg "[]" exUnmarshal "[0, 0]"]
  have a: "exit_err (buildOutcome ?w exCfg []) = None"
    by code_simp
  have b: "?c \<in> set (runCmds exUnmarshal exCfg ?w [0, 0] [])"
    by code_simp
  have c: "isDeployCmd ?c"
    by code_simp
  have d: "parseDigest (out (pushOutcome ?w exCfg [])) = Inr ''sha256:abc123''"
    by code_simp
  from t a have "take 2 (runCmds exUnmarshal exCfg ?w [0, 0] []) = [buildCmd exCfg, dockerBuildCmd exCfg]"
    by blast
  moreover from t b c have "cmd_args ?c ! 3 \<noteq> ''--image='' @ imageTag exCfg"
    by blast
  ultimately show ?thesis
    using a b c d by blast
qed

section \<open>Fan-out and join: the join\<close>

lemma step_length: "length (fst (step w i st)) = length (fst st)"
  by (cases st) (simp add: step_def split: option.splits proc.splits)

lemma finish_length: "length (fst (finish w i st)) = length (fst st)"
  by (cases st) (simp add: finish_def split: option.splits prod.splits)

lemma foldl_step_length: "length (fst (foldl (\<lambda>st i. step w i st) st sched)) = length (fst st)"
  by (induction sched arbitrary: st) (simp_all add: step_length)

lemma finish_keeps_done:
  assumes "j < length (fst st)" and "fst st ! j = None"
  shows "fst (finish w i st) ! j = None"
  using assms
  by (cases st) (auto simp add: finish_def nth_list_update split: option.splits prod.splits)

lemma finish_done:
  assumes "i < length (fst st)"
  shows "fst (finish w i st) ! i = None"
  using assms
  by (cases st) (auto simp add: finish_def split: option.splits prod.splits)

lemma foldl_finish_done:
  assumes "m \<le> length (fst st)"
  shows "length (fst (foldl (\<lambda>st i. finish w i st) st [0 ..< m])) = length (fst st)
     \<and> (\<forall>j < m. fst (foldl (\<lambda>st i. finish w i st) st [0 ..< m]) ! j = None)"
  using assms
proof (induction m)
  case 0
  show ?case by simp
next
  case (Suc m)
  let ?st' = "foldl (\<lambda>st i. finish w i st) st [0 ..< m]"
  from Suc have len: "length (fst ?st') = length (fst st)"
    and don: "\<forall>j < m. fst ?st' ! j = None"
    by simp_all
  have f: "foldl (\<lambda>st i. finish w i st) st [0 ..< Suc m] = finish w m ?st'"
    by simp
  have "fst (finish w m ?st') ! j = None" if "j < Suc m" for j
  proof (cases "j = m")
    case True
    with Suc.prems len show ?thesis
      by (simp add: finish_done)
  next
    case False
    with that have "j < m" by simp
    with don Suc.prems len show ?thesis
      by (simp add: finish_keeps_done)
  qed
  with len show ?case
    unfolding f by (simp add: finish_length)
qed

lemma joinAll_all_done: "\<forall>t \<in> set (fst (joinAll w sched st)). t = None"
proof -
  let ?st1 = "foldl (\<lambda>st i. step w i st) st sched"
  have len: "length (fst ?st1) = length (fst st)"
    by (rule foldl_step_length)
  from foldl_finish_done [of "length (fst st)" ?st1 w] len
  have "length (fst (joinAll w sched st)) = length (fst st)"
    and "\<forall>j < length (fst st). fst (joinAll w sched st) ! j = None"
    by (simp_all add: joinAll_def)
  then show ?thesis
    by (metis in_set_conv_nth)
qed

lemma allRets_exec: "allRets Q p \<Longrightarrow> Q (fst (exec w p h))"
proof (induction p arbitrary: h)
  case (Return a)
  then show ?case by simp
next
  case (Exec c k)
  from Exec.prems have "allRets Q (k (w h c))"
    by simp
  from Exec.IH [OF rangeI this] show ?case
    by simp
qed

lemma retsOk_update_None: "retsOk tasks \<Longrightarrow> retsOk (tasks[i := None])"
  unfolding retsOk_def by (metis insertE option.distinct(1) set_update_subset_insert subsetD)

lemma retsOk_update_Some:
  "retsOk tasks \<Longrightarrow> allRets (\<lambda>r. r \<noteq> Some []) p \<Longrightarrow> retsOk (tasks[i := Some p])"
  unfolding retsOk_def by (metis insertE option.inject set_update_subset_insert subsetD)

lemma step_errs:
  assumes "retsOk tasks" and "\<forall>e \<in> set errs. e \<noteq> []"
    and "step w i (tasks, errs, h) = (tasks', errs', h')"
  shows "retsOk tasks' \<and> (\<forall>e \<in> set errs'. e \<noteq> [])"
proof (cases "i < length tasks")
  case False
  with assms show ?thesis by (simp add: step_def)
next
  case True
  show ?thesis
  proof (cases "tasks ! i")
    case None
    with True assms show ?thesis by (simp add: step_def)
  next
    case (Some p)
    then have "Some p \<in> set tasks"
      using True by (metis nth_mem)
    with assms(1) have ok: "allRets (\<lambda>r. r \<noteq> Some []) p"
      by (simp add: retsOk_def)
    show ?thesis
    proof (cases p)
      case (Return r)
      with Some True assms(3)
      have "tasks' = tasks[i := None]"
        and "errs' = errs @ (case r of None \<Rightarrow> [] | Some e \<Rightarrow> [e])"
        by (simp_all add: step_def)
      with assms(1,2) ok Return show ?thesis
        by (auto simp add: retsOk_update_None split: option.splits)
    next
      case (Exec c k)
      with Some True assms(3)
      have "tasks' = tasks[i := Some (k (w h c))]" and "errs' = errs"
        by (simp_all add: step_def)
      with assms(1,2) ok Exec show ?thesis
        by (simp add: retsOk_update_Some)
    qed
  qed
qed

lemma finish_errs:
  assumes "retsOk tasks" and "\<forall>e \<in> set errs. e \<noteq> []"
    and "finish w i (tasks, errs, h) = (tasks', errs', h')"
  shows "retsOk tasks' \<and> (\<forall>e \<in> set errs'. e \<noteq> [])"
proof (cases "i < length tasks")
  case False
  with assms show ?thesis by (simp add: finish_def)
next
  case True
  show ?thesis
  proof (cases "tasks ! i")
    case None
    with True assms show ?thesis by (simp add: finish_def)
  next
    case (Some p)
    then have "Some p \<in> set tasks"
      using True by (metis nth_mem)
    with assms(1) have ok: "allRets (\<lambda>r. r \<noteq> Some []) p"
      by (simp add: retsOk_def)
    from Some True assms(3)
    have "tasks' = tasks[i := None]"
      and "errs' = errs @ (case fst (exec w p h) of None \<Rightarrow> [] | Some e \<Rightarrow> [e])"
      by (simp_all add: finish_def split: prod.splits)
    with assms(1,2) allRets_exec [OF ok, of w h] show ?thesis
      by (auto simp add: retsOk_update_None split: option.splits)
  qed
qed

lemma foldl_step_errs:
  assumes "retsOk tasks" and "\<forall>e \<in> set errs. e \<noteq> []"
    and "foldl (\<lambda>st i. step w i st) (tasks, errs, h) sched = (tasks', errs', h')"
  shows "retsOk tasks' \<and> (\<forall>e \<in> set errs'. e \<noteq> [])"
  using assms
proof (induction sched arbitrary: tasks errs h)
  case Nil
  then show ?case by simp
next
  case (Cons i sched)
  obtain t1 e1 h1 where s: "step w i (tasks, errs, h) = (t1, e1, h1)"
    by (cases "step w i (tasks, errs, h)") auto
  from step_errs [OF Cons.prems(1,2) s] have "retsOk t1" "\<forall>e \<in> set e1. e \<noteq> []"
    by simp_all
  moreover from Cons.prems(3) s
  have "foldl (\<lambda>st i. step w i st) (t1, e1, h1) sched = (tasks', errs', h')"
    by simp
  ultimately show ?case
    by (rule Cons.IH)
qed

lemma foldl_finish_errs:
  assumes "retsOk tasks" and "\<forall>e \<in> set errs. e \<noteq> []"
    and "foldl (\<lambda>st i. finish w i st) (tasks, errs, h) is = (tasks', errs', h')"
  shows "retsOk tasks' \<and> (\<forall>e \<in> set errs'. e \<noteq> [])"
  using assms
proof (induction "is" arbitrary: tasks errs h)
  case Nil
  then show ?case by simp
next
  case (Cons i "is")
  obtain t1 e1 h1 where s: "finish w i (tasks, errs, h) = (t1, e1, h1)"
    by (cases "finish w i (tasks, errs, h)") auto
  from finish_errs [OF Cons.prems(1,2) s] have "retsOk t1" "\<forall>e \<in> set e1. e \<noteq> []"
    by simp_all
  moreover from Cons.prems(3) s
  have "foldl (\<lambda>st i. finish w i st) (t1, e1, h1) is = (tasks', errs', h')"
    by simp
  ultimately show ?case
    by (rule Cons.IH)
qed

lemma allRets_deleteRevisions:
  "allRets (\<lambda>r. r \<noteq> Some []) (deleteRevisions cfg revs)"
  by (induction revs)
    (simp_all del: deleteRevisions.simps(2) add: deleteRevisions_Cons split: option.splits)

lemma allRets_deployService:
  "allRets (\<lambda>r. r \<noteq> Some []) (deployService cfg service img)"
  unfolding deployService_unfold
  by (simp add: allRets_deleteRevisions split: option.splits)

lemma deployServices_join:
  "fst (deployServices cfg img w sched h) =
     (if collectedErrs cfg img w sched h = [] then None
      else Some (joinWith [CHR 0x0A] (collectedErrs cfg img w sched h)))"
proof -
  let ?tasks = "map (\<lambda>service. Some (deployService cfg service img)) (services cfg)"
  obtain t1 e1 h1 where s: "foldl (\<lambda>st i. step w i st) (?tasks, [], h) sched = (t1, e1, h1)"
    by (cases "foldl (\<lambda>st i. step w i st) (?tasks, [], h) sched") auto
  obtain tasks' errs' h' where j: "joinAll w sched (?tasks, [], h) = (tasks', errs', h')"
    by (cases "joinAll w sched (?tasks, [], h)") auto
  have r0: "retsOk ?tasks"
    by (auto simp add: retsOk_def allRets_deployService)
  from foldl_step_errs [OF r0 _ s] have a: "retsOk t1" "\<forall>e \<in> set e1. e \<noteq> []"
    by simp_all
  from j s
  have "foldl (\<lambda>st i. finish w i st) (t1, e1, h1) [0 ..< length (services cfg)] = (tasks', errs', h')"
    by (simp add: joinAll_def)
  from foldl_finish_errs [OF a this] have ne: "\<forall>e \<in> set errs'. e \<noteq> []"
    by simp
  have c: "collectedErrs cfg img w sched h = errs'"
    by (simp add: collectedErrs_def j)
  show ?thesis
    unfolding c using drainErrs_join [OF ne] drainErrs_empty_iff [OF ne]
    by (simp add: deployServices_def j Let_def)
qed


section \<open>Fan-out and join: results\<close>

text \<open>
  C3, evaluated where the code departs from it. Two services are deployed; the deploy of
  \<^verbatim>\<open>api\<close> fails and, for \<^verbatim>\<open>worker\<close>, the deletion of revision \<^verbatim>\<open>rev1\<close> fails. The
  task of \<^verbatim>\<open>worker\<close> still runs to its end after \<^verbatim>\<open>api\<close> has failed, and the combined
  error has one line for each, joined by a newline; but the line for \<^verbatim>\<open>worker\<close> names
  the revision only, not the service.
\<close>

theorem deployServices_delete_error_names_no_service:
  "fst (deployServices (exCfg\<lparr>services := [''api'', ''worker'']\<rparr>) ''gcr.io/p/web@sha256:abc123''
        (exWorld (\<lambda>c. c = deployCmd exCfg ''api'' ''gcr.io/p/web@sha256:abc123''
                      \<or> c = deleteRevisionCmd exCfg ''rev1'')) [0, 0, 0, 1] [])
     = Some (''deploy service api: exit status 1'' @ [CHR 0x0A]
             @ ''delete revision rev1: exit status 1'')
   \<and> map fst (snd (deployServices (exCfg\<lparr>services := [''api'', ''worker'']\<rparr>)
        ''gcr.io/p/web@sha256:abc123''
        (exWorld (\<lambda>c. c = deployCmd exCfg ''api'' ''gcr.io/p/web@sha256:abc123''
                      \<or> c = deleteRevisionCmd exCfg ''rev1'')) [0, 0, 0, 1] []))
     = [listRevisionsCmd exCfg ''api'',
        deployCmd exCfg ''api'' ''gcr.io/p/web@sha256:abc123'',
        listRevisionsCmd exCfg ''worker'',
        deployCmd exCfg ''worker'' ''gcr.io/p/web@sha256:abc123'',
        updateTrafficCmd exCfg ''worker'',
        deleteRevisionCmd exCfg ''rev2'',
        deleteRevisionCmd exCfg ''rev1'']
   \<and> Contains ''deploy service api: exit status 1'' ''api''
   \<and> \<not> Contains ''delete revision rev1: exit status 1'' ''worker''"
  by (intro conjI; code_simp)

end
